theory Spec2Isabelle
  imports Complex_Main "HOL-Library.Multiset"
begin

section \<open>Values exchanged by the leaderboard relay\<close>

text \<open>
  The relay (\<open>Server/Local Server Script.py\<close>) and its client (\<open>NetworkClient\<close> in
  \<open>BART.py\<close>) exchange JSON texts. A parsed JSON text is a Python value: \<open>None\<close>, a
  bool, an int, a float, a str, a list or a dict. A Python float is a finite binary
  fraction, a NaN or an infinity; the finite ones are represented by the rational they
  denote. A dict is represented by its items in insertion order (its keys are distinct).
  A str is the list of its Unicode code points; \<open>ustr\<close> writes one from ASCII text.
\<close>

type_synonym pystr = "nat list"

definition ustr :: "string \<Rightarrow> pystr" where
  "ustr s = map of_char s"

datatype pyfloat = Finite rat | NaN | PosInf | NegInf

datatype json =
    JNull
  | JBool bool
  | JInt int
  | JFloat pyfloat
  | JStr pystr
  | JArr "json list"
  | JObj "(pystr \<times> json) list"

text \<open>The exceptions (all subclasses of Python's \<open>Exception\<close>) that the modelled code can meet.\<close>

datatype exn =
    UnicodeDecodeError
  | JSONDecodeError
  | RecursionError
  | KeyError
  | TypeError
  | ValueError
  | OverflowError
  | OSError

subsection \<open>Python's \<open>int(...)\<close>\<close>

text \<open>
  \<open>int\<close> of a str, as CPython 3.11 (Unicode 14.0) computes it. A str with a character
  outside ASCII is first rewritten: a code point below 127 stays, a Unicode space becomes
  an ASCII space, a decimal digit of any script becomes its ASCII digit, and the first
  other character becomes a question mark that ends the text. The ASCII text is then read:
  the six ASCII white space characters are skipped at both ends, a sign may follow, then
  decimal digits with single underscores allowed between two of them. A text of more than
  4300 digits is refused.
\<close>

definition is_space :: "nat \<Rightarrow> bool" where
  "is_space c = (c \<in> set [0x20, 0x09, 0x0A, 0x0B, 0x0C, 0x0D])"

definition unicode_spaces :: "nat list" where
  "unicode_spaces =
     [0x85, 0xA0, 0x1680, 0x2000, 0x2001, 0x2002, 0x2003, 0x2004, 0x2005, 0x2006, 0x2007,
      0x2008, 0x2009, 0x200A, 0x2028, 0x2029, 0x202F, 0x205F, 0x3000]"

text \<open>The code points of the digit zero of every run of ten decimal digits.\<close>

definition decimal_zeros :: "nat list" where
  "decimal_zeros =
     [0x30, 0x660, 0x6F0, 0x7C0, 0x966, 0x9E6, 0xA66, 0xAE6, 0xB66, 0xBE6, 0xC66, 0xCE6,
      0xD66, 0xDE6, 0xE50, 0xED0, 0xF20, 0x1040, 0x1090, 0x17E0, 0x1810, 0x1946, 0x19D0,
      0x1A80, 0x1A90, 0x1B50, 0x1BB0, 0x1C40, 0x1C50, 0xA620, 0xA8D0, 0xA900, 0xA9D0,
      0xA9F0, 0xAA50, 0xABF0, 0xFF10, 0x104A0, 0x10D30, 0x11066, 0x110F0, 0x11136, 0x111D0,
      0x112F0, 0x11450, 0x114D0, 0x11650, 0x116C0, 0x11730, 0x118E0, 0x11950, 0x11C50,
      0x11D50, 0x11DA0, 0x16A60, 0x16AC0, 0x16B50, 0x1D7CE, 0x1D7D8, 0x1D7E2, 0x1D7EC,
      0x1D7F6, 0x1E140, 0x1E2F0, 0x1E950, 0x1FBF0]"

definition to_decimal :: "nat \<Rightarrow> nat option" where
  "to_decimal c =
     (case filter (\<lambda>z. z \<le> c \<and> c < z + 10) decimal_zeros of
        [] \<Rightarrow> None
      | z # zs \<Rightarrow> Some (c - z))"

fun transform :: "pystr \<Rightarrow> pystr" where
  "transform [] = []"
| "transform (c # cs) =
     (if c < 127 then c # transform cs
      else if c \<in> set unicode_spaces then 0x20 # transform cs
      else (case to_decimal c of
              None \<Rightarrow> [0x3F]
            | Some d \<Rightarrow> (0x30 + d) # transform cs))"

definition to_ascii :: "pystr \<Rightarrow> pystr" where
  "to_ascii s = (if list_all (\<lambda>c. c < 128) s then s else transform s)"

definition strip :: "pystr \<Rightarrow> pystr" where
  "strip s = rev (dropWhile is_space (rev (dropWhile is_space s)))"

definition is_digit :: "nat \<Rightarrow> bool" where
  "is_digit c = (0x30 \<le> c \<and> c \<le> 0x39)"

definition digit_val :: "nat \<Rightarrow> int" where
  "digit_val c = int c - 0x30"

text \<open>Decimal digits, single underscores allowed between two digits; called after a digit.\<close>

fun parse_digits :: "int \<Rightarrow> pystr \<Rightarrow> int option" where
  "parse_digits acc [] = Some acc"
| "parse_digits acc [c] = (if is_digit c then Some (10 * acc + digit_val c) else None)"
| "parse_digits acc (c # d # cs) =
     (if is_digit c then parse_digits (10 * acc + digit_val c) (d # cs)
      else if c = 0x5F \<and> is_digit d then parse_digits (10 * acc + digit_val d) cs
      else None)"

definition parse_unsigned :: "pystr \<Rightarrow> int option" where
  "parse_unsigned s =
     (case s of [] \<Rightarrow> None
      | c # cs \<Rightarrow> if is_digit c then parse_digits (digit_val c) cs else None)"

definition MAX_STR_DIGITS :: nat where
  "MAX_STR_DIGITS = 4300"

definition int_of_str :: "pystr \<Rightarrow> int option" where
  "int_of_str s =
     (let t = strip (to_ascii s) in
      if MAX_STR_DIGITS < length (filter is_digit t) then None
      else (case t of
              [] \<Rightarrow> None
            | c # cs \<Rightarrow>
                if c = 0x2D then map_option uminus (parse_unsigned cs)
                else if c = 0x2B then parse_unsigned cs
                else parse_unsigned (c # cs)))"

fun py_int :: "json \<Rightarrow> exn + int" where
  "py_int JNull = Inl TypeError"
| "py_int (JBool b) = Inr (if b then 1 else 0)"
| "py_int (JInt i) = Inr i"
| "py_int (JFloat (Finite q)) = Inr (if 0 \<le> q then \<lfloor>q\<rfloor> else \<lceil>q\<rceil>)"
| "py_int (JFloat NaN) = Inl ValueError"
| "py_int (JFloat PosInf) = Inl OverflowError"
| "py_int (JFloat NegInf) = Inl OverflowError"
| "py_int (JStr s) = (case int_of_str s of None \<Rightarrow> Inl ValueError | Some i \<Rightarrow> Inr i)"
| "py_int (JArr xs) = Inl TypeError"
| "py_int (JObj kvs) = Inl TypeError"

text \<open>The subscription \<open>x["pumps"]\<close>: a dict lookup; every other JSON value refuses a str index.\<close>

fun subscript_pumps :: "json \<Rightarrow> exn + json" where
  "subscript_pumps (JObj kvs) =
     (case map_of kvs (ustr ''pumps'') of None \<Rightarrow> Inl KeyError | Some v \<Rightarrow> Inr v)"
| "subscript_pumps x = Inl TypeError"

text \<open>The sort key \<open>lambda x: int(x["pumps"])\<close>.\<close>

definition pumps_key :: "json \<Rightarrow> exn + int" where
  "pumps_key x = (case subscript_pumps x of Inl e \<Rightarrow> Inl e | Inr v \<Rightarrow> py_int v)"

subsection \<open>\<open>sorted(leaderbord, key=..., reverse=True)\<close>\<close>

text \<open>
  \<open>sorted\<close> computes the key of every element once, in list order (the first exception
  ends the call), then sorts stably; with \<open>reverse=True\<close> the order is descending and
  elements of equal key keep their original order.
\<close>

fun pumps_keys :: "json list \<Rightarrow> exn + (int \<times> json) list" where
  "pumps_keys [] = Inr []"
| "pumps_keys (x # xs) =
     (case pumps_key x of
        Inl e \<Rightarrow> Inl e
      | Inr k \<Rightarrow> (case pumps_keys xs of Inl e \<Rightarrow> Inl e | Inr ks \<Rightarrow> Inr ((k, x) # ks)))"

definition sorted_by_pumps :: "json list \<Rightarrow> exn + json list" where
  "sorted_by_pumps xs =
     (case pumps_keys xs of
        Inl e \<Rightarrow> Inl e
      | Inr ks \<Rightarrow> Inr (map snd (sort_key (\<lambda>p. - fst p) ks)))"

section \<open>The relay server\<close>

type_synonym conn = nat

definition MAX_PLAYERS :: nat where
  "MAX_PLAYERS = 5"

definition MAX_LEADERBOARD :: nat where
  "MAX_LEADERBOARD = 8"

text \<open>
  What \<open>conn.recv(1024)\<close> gives a handler. Received bytes, at most 1024 of them, are told
  apart by what \<open>json.loads(data.decode())\<close> does with them: \<open>decode\<close> raises a
  UnicodeDecodeError; \<open>loads\<close> raises a JSONDecodeError; \<open>loads\<close> raises a RecursionError,
  as it does on a thousand opening brackets; or \<open>loads\<close> returns a value. (The ValueError of
  \<open>loads\<close> for an integer of more than 4300 digits needs more bytes than one \<open>recv\<close> returns.)
\<close>

datatype payload = NotUtf8 | NotJson | TooDeep | Json json

datatype recv_result = Eof | RecvFailed | Bytes payload

fun loads_decode :: "payload \<Rightarrow> exn + json" where
  "loads_decode NotUtf8 = Inl UnicodeDecodeError"
| "loads_decode NotJson = Inl JSONDecodeError"
| "loads_decode TooDeep = Inl RecursionError"
| "loads_decode (Json v) = Inr v"

text \<open>What the server writes to a socket, and the lines it prints.\<close>

datatype wire = Snapshot "json list" | ServerFull

datatype log_line =
    Connected int
  | Info nat
  | Board "json list"
  | ParseError
  | HandlerError int exn
  | Disconnected int
  | MaxPlayersWarning

text \<open>
  The module's globals (\<open>clients\<close>, \<open>client_ids\<close>, \<open>next_player_id\<close>, \<open>leaderbord\<close>),
  the running handler threads with their local \<open>player_id\<close>, the branch of the accept
  loop whose \<open>server.accept()\<close> is pending (\<open>refusing\<close>), whether the main thread has
  died of an uncaught exception (\<open>halted\<close>), and what the server has done to the outside:
  sockets closed, bytes sent, lines printed, each in order.
\<close>

record server =
  clients :: "conn list"
  client_ids :: "conn \<rightharpoonup> int"
  next_player_id :: int
  leaderbord :: "json list"
  threads :: "conn \<rightharpoonup> int"
  refusing :: bool
  halted :: bool
  closed :: "conn list"
  sent :: "(conn \<times> wire) list"
  out :: "log_line list"

definition init :: server where
  "init = \<lparr>clients = [], client_ids = Map.empty, next_player_id = 1, leaderbord = [],
           threads = Map.empty, refusing = False, halted = False,
           closed = [], sent = [], out = []\<rparr>"

text \<open>
  \<open>for c in clients: c.sendall(...)\<close>, where \<open>bad\<close> lists the sockets whose \<open>sendall\<close>
  raises: the sends made before the first failure, and the exception if there is one.
\<close>

fun broadcast :: "conn list \<Rightarrow> wire \<Rightarrow> conn list \<Rightarrow> (conn \<times> wire) list \<times> (exn + unit)" where
  "broadcast bad m [] = ([], Inr ())"
| "broadcast bad m (c # cs) =
     (if c \<in> set bad then ([], Inl OSError)
      else (case broadcast bad m cs of (d, r) \<Rightarrow> ((c, m) # d, r)))"

text \<open>
  Lines 33 to 35 of \<open>handle_client\<close>, the update of the ranking: the list after the
  three statements, and the exception if \<open>sorted\<close> raises. \<open>append\<close> changes the list in
  place, so the new entry stays in it when \<open>sorted\<close> raises.
\<close>

definition record_update :: "json \<Rightarrow> json list \<Rightarrow> json list \<times> (exn + unit)" where
  "record_update message_obj lb =
     (let lb1 = lb @ [message_obj] in
      case sorted_by_pumps lb1 of
        Inl e \<Rightarrow> (lb1, Inl e)
      | Inr srt \<Rightarrow> (take MAX_LEADERBOARD srt, Inr ()))"

text \<open>Lines 32 to 40 of \<open>handle_client\<close>: the body of the inner \<open>try\<close>.\<close>

definition try_body :: "payload \<Rightarrow> conn list \<Rightarrow> server \<Rightarrow> server \<times> (exn + unit)" where
  "try_body p bad s =
     (case loads_decode p of
        Inl e \<Rightarrow> (s, Inl e)
      | Inr message_obj \<Rightarrow>
          (case record_update message_obj (leaderbord s) of
             (lb, Inl e) \<Rightarrow> (s\<lparr>leaderbord := lb\<rparr>, Inl e)
           | (lb, Inr u) \<Rightarrow>
               let s2 = s\<lparr>leaderbord := lb\<rparr>;
                   s3 = s2\<lparr>out := out s2 @ [Board (leaderbord s2)]\<rparr>
               in (case broadcast bad (Snapshot (leaderbord s3)) (clients s3) of
                     (d, r) \<Rightarrow> (s3\<lparr>sent := sent s3 @ d\<rparr>, r))))"

text \<open>
  Lines 46 to 51, the \<open>finally\<close> block. \<open>clients.remove(conn)\<close> raises when \<open>conn\<close> is not
  in the list, which ends the thread before the remaining lines; \<open>del client_ids[conn]\<close>
  is the last statement, so its KeyError changes nothing more.
\<close>

definition finally_block :: "conn \<Rightarrow> int \<Rightarrow> server \<Rightarrow> server" where
  "finally_block c pid s =
     (let s1 = s\<lparr>closed := closed s @ [c], threads := (threads s)(c := None)\<rparr> in
      if c \<in> set (clients s1) then
        let s2 = s1\<lparr>clients := remove1 c (clients s1)\<rparr>;
            s3 = s2\<lparr>out := out s2 @ [Disconnected pid, Info (length (clients s2))]\<rparr>
        in s3\<lparr>client_ids := (client_ids s3)(c := None)\<rparr>
      else s1)"

text \<open>Lines 17 to 22: the start of \<open>handle_client\<close>.\<close>

definition handle_client_start :: "conn \<Rightarrow> server \<Rightarrow> server" where
  "handle_client_start c s =
     (let player_id = next_player_id s in
      s\<lparr>next_player_id := player_id + 1,
        client_ids := (client_ids s)(c \<mapsto> player_id),
        threads := (threads s)(c \<mapsto> player_id),
        out := out s @ [Connected player_id, Info (length (clients s))]\<rparr>)"

text \<open>One turn of the \<open>while True\<close> loop of \<open>handle_client\<close> (lines 25 to 51) for the
  handler of \<open>c\<close>, given what its \<open>recv\<close> returns.\<close>

definition handle_client_recv :: "conn \<Rightarrow> recv_result \<Rightarrow> conn list \<Rightarrow> server \<Rightarrow> server" where
  "handle_client_recv c r bad s =
     (case threads s c of
        None \<Rightarrow> s
      | Some pid \<Rightarrow>
          (case r of
             Eof \<Rightarrow> finally_block c pid s
           | RecvFailed \<Rightarrow> finally_block c pid (s\<lparr>out := out s @ [HandlerError pid OSError]\<rparr>)
           | Bytes p \<Rightarrow>
               (case try_body p bad s of
                  (s', Inr u) \<Rightarrow> s'
                | (s', Inl e) \<Rightarrow>
                    if e = JSONDecodeError then s'\<lparr>out := out s' @ [ParseError]\<rparr>
                    else finally_block c pid (s'\<lparr>out := out s' @ [HandlerError pid e]\<rparr>))))"

text \<open>The head of the accept loop (line 74, and line 79 in the \<open>else\<close> branch): the branch is
  chosen before \<open>server.accept()\<close> blocks.\<close>

definition loop_head :: "server \<Rightarrow> server" where
  "loop_head s =
     (if length (clients s) < MAX_PLAYERS then s\<lparr>refusing := False\<rparr>
      else s\<lparr>refusing := True, out := out s @ [MaxPlayersWarning]\<rparr>)"

text \<open>
  The pending \<open>server.accept()\<close> returns the socket \<open>c\<close> (lines 75 to 77, or 80 to 82), and
  the loop goes back to its head. An accepted socket is a new object, different from
  every socket the program still holds. In the \<open>else\<close> branch a raising \<open>sendall\<close> is not
  caught: the main thread ends, and with it the process (the handlers are daemon threads).
\<close>

definition accept_conn :: "conn \<Rightarrow> conn list \<Rightarrow> server \<Rightarrow> server" where
  "accept_conn c bad s =
     (if c \<in> set (clients s) \<or> threads s c \<noteq> None \<or> client_ids s c \<noteq> None then s
      else if \<not> refusing s then
        loop_head (handle_client_start c (s\<lparr>clients := clients s @ [c]\<rparr>))
      else if c \<in> set bad then s\<lparr>halted := True\<rparr>
      else loop_head (s\<lparr>sent := sent s @ [(c, ServerFull)], closed := closed s @ [c]\<rparr>))"

text \<open>
  The server runs as a sequence of events: a connection arrives, or the \<open>recv\<close> of one
  handler returns. Each event carries the sockets on which \<open>sendall\<close> raises at that
  moment. An event is handled in one piece, the start of the new handler thread together
  with the arrival of its connection; a \<open>recv\<close> event for a socket without a running
  handler changes nothing, and once the process has ended nothing happens.
\<close>

datatype event = Connect conn "conn list" | Receive conn recv_result "conn list"

fun step :: "event \<Rightarrow> server \<Rightarrow> server" where
  "step (Connect c bad) s = (if halted s then s else accept_conn c bad s)"
| "step (Receive c r bad) s = (if halted s then s else handle_client_recv c r bad s)"

definition run :: "event list \<Rightarrow> server \<Rightarrow> server" where
  "run evs s = fold step evs s"

section \<open>The relay client\<close>

text \<open>
  \<open>NetworkClient\<close> of \<open>BART.py\<close>. An argument handed to the client is any Python object:
  one that \<open>json.dumps\<close> writes as the text of a JSON value, or one on which \<open>json.dumps\<close>
  raises (a TypeError for an object that JSON has no form for, a ValueError for a circular
  reference or for an int of more than 4300 digits).
\<close>

datatype pyarg = Plain json | Opaque exn

datatype client_line = LeaderboardLine json | ListeningFailed exn | SendingFailed exn

record client =
  player_id :: pyarg
  leaderboard :: json
  running :: bool
  sock_closed :: bool
  written :: "json list"
  cout :: "client_line list"

fun to_json :: "pyarg \<Rightarrow> exn + json" where
  "to_json (Plain v) = Inr v"
| "to_json (Opaque e) = Inl e"

text \<open>\<open>json.dumps({"id": self.player_id, "pumps": pumps})\<close>: the JSON text written, given by
  the value it denotes.\<close>

definition dumps_msg :: "pyarg \<Rightarrow> pyarg \<Rightarrow> exn + json" where
  "dumps_msg pid pumps =
     (case to_json pid of
        Inl e \<Rightarrow> Inl e
      | Inr i \<Rightarrow> (case to_json pumps of
                   Inl e \<Rightarrow> Inl e
                 | Inr p \<Rightarrow> Inr (JObj [(ustr ''id'', i), (ustr ''pumps'', p)])))"

text \<open>\<open>self.sock.sendall(data)\<close>; \<open>net\<close> is the exception the network answers with, if any.\<close>

definition sock_sendall :: "json \<Rightarrow> exn option \<Rightarrow> client \<Rightarrow> client \<times> (exn + unit)" where
  "sock_sendall d net self =
     (if sock_closed self then (self, Inl OSError)
      else (case net of
              Some e \<Rightarrow> (self, Inl e)
            | None \<Rightarrow> (self\<lparr>written := written self @ [d]\<rparr>, Inr ())))"

text \<open>Lines 79 to 84: the state afterwards, and \<open>Inl\<close> for an exception that reaches the caller.\<close>

definition send_update :: "pyarg \<Rightarrow> exn option \<Rightarrow> client \<Rightarrow> client \<times> (exn + unit)" where
  "send_update pumps net self =
     (case (case dumps_msg (player_id self) pumps of
              Inl e \<Rightarrow> (self, Inl e)
            | Inr d \<Rightarrow> sock_sendall d net self) of
        (self', Inr u) \<Rightarrow> (self', Inr ())
      | (self', Inl e) \<Rightarrow> (self'\<lparr>cout := cout self' @ [SendingFailed e]\<rparr>, Inr ()))"

text \<open>Lines 89 to 91.\<close>

definition close :: "client \<Rightarrow> client" where
  "close self = self\<lparr>running := False, sock_closed := True\<rparr>"

text \<open>Lines 70 to 77: one turn of the listener's loop body, given what \<open>recv\<close> does.\<close>

definition listen_turn :: "recv_result \<Rightarrow> client \<Rightarrow> client" where
  "listen_turn r self =
     (case r of
        Eof \<Rightarrow> self
      | RecvFailed \<Rightarrow> self\<lparr>cout := cout self @ [ListeningFailed OSError], running := False\<rparr>
      | Bytes p \<Rightarrow>
          (case loads_decode p of
             Inr v \<Rightarrow> self\<lparr>leaderboard := v, cout := cout self @ [LeaderboardLine v]\<rparr>
           | Inl e \<Rightarrow> self\<lparr>cout := cout self @ [ListeningFailed e], running := False\<rparr>))"

text \<open>
  Lines 68 to 77, the listener thread. \<open>net n\<close> tells what the \<open>n\<close>-th \<open>recv\<close> returns and
  whether the main thread calls \<open>close()\<close> while that \<open>recv\<close> is pending; a \<open>recv\<close> on a
  socket closed beforehand raises. The result is the number of reads issued and the final
  state; a listener that never leaves the loop has no result.
\<close>

partial_function (option) listen_for_updates ::
    "(nat \<Rightarrow> recv_result \<times> bool) \<Rightarrow> nat \<Rightarrow> client \<Rightarrow> (nat \<times> client) option" where
  "listen_for_updates net n self =
     (if running self then
        (case net n of
           (r, closing) \<Rightarrow>
             listen_for_updates net (Suc n)
               (listen_turn (if sock_closed self then RecvFailed else r)
                  (if closing then close self else self)))
      else Some (n, self))"

text \<open>\<open>NetworkClient.__init__\<close> after a successful \<open>connect\<close>.\<close>

definition new_client :: "pyarg \<Rightarrow> client" where
  "new_client pid = \<lparr>player_id = pid, leaderboard = JArr [], running = True,
                     sock_closed = False, written = [], cout = []\<rparr>"

text \<open>The server has closed the connection: every \<open>recv\<close> returns \<open>b''\<close>.\<close>

definition peer_closed :: "nat \<Rightarrow> recv_result \<times> bool" where
  "peer_closed n = (Eof, False)"

section \<open>Example runs\<close>

text \<open>The update \<open>{"id": i, "pumps": n}\<close>.\<close>

definition entry :: "string \<Rightarrow> int \<Rightarrow> json" where
  "entry i n = JObj [(ustr ''id'', JStr (ustr i)), (ustr ''pumps'', JInt n)]"

section \<open>Further notions for the claims\<close>

text \<open>The pump count of an entry that has one.\<close>

definition key_of :: "json \<Rightarrow> int" where
  "key_of x = (case pumps_key x of Inl e \<Rightarrow> 0 | Inr k \<Rightarrow> k)"

text \<open>The entry has a \<open>"pumps"\<close> value that \<open>int\<close> converts.\<close>

definition has_pumps :: "json \<Rightarrow> bool" where
  "has_pumps x = (case pumps_key x of Inl e \<Rightarrow> False | Inr k \<Rightarrow> True)"

text \<open>Updates whose pump counts increase strictly, in the order given.\<close>

definition strictly_increasing :: "json list \<Rightarrow> bool" where
  "strictly_increasing vs =
     (case pumps_keys vs of Inl e \<Rightarrow> False | Inr ks \<Rightarrow> sorted_wrt (<) (map fst ks))"

definition ten_entries :: "json list" where
  "ten_entries =
     [entry ''1'' 1, entry ''2'' 2, entry ''1'' 3, entry ''2'' 4, entry ''1'' 5,
      entry ''2'' 6, entry ''1'' 7, entry ''2'' 8, entry ''1'' 9, entry ''2'' 10]"

text \<open>Servers with one and with three connected clients, and an update without pump count.\<close>

definition one_client :: server where
  "one_client = run [Connect 1 []] init"

definition three_clients :: server where
  "three_clients = run [Connect 1 [], Connect 2 [], Connect 3 []] init"

definition no_pumps :: json where
  "no_pumps = JObj [(ustr ''id'', JStr (ustr ''1''))]"

text \<open>The event is not the arrival of the socket \<open>c\<close>.\<close>

fun no_connect :: "conn \<Rightarrow> event \<Rightarrow> bool" where
  "no_connect c (Connect c' bad) = (c' \<noteq> c)"
| "no_connect c (Receive c' r bad) = True"

text \<open>The registry holds distinct sockets, among them those of all handlers.\<close>

definition registry_ok :: "server \<Rightarrow> bool" where
  "registry_ok s =
     (distinct (clients s) \<and> length (clients s) \<le> MAX_PLAYERS \<and>
      (refusing s \<or> length (clients s) < MAX_PLAYERS) \<and>
      dom (threads s) \<subseteq> set (clients s) \<and> dom (client_ids s) \<subseteq> set (clients s))"

text \<open>What a socket has been sent.\<close>

definition sent_to :: "conn \<Rightarrow> server \<Rightarrow> wire list" where
  "sent_to c s = map snd (filter (\<lambda>m. fst m = c) (sent s))"

text \<open>Five connections arrive at a fresh server; a client ends and the socket comes anew.\<close>

definition five_clients :: "event list" where
  "five_clients = map (\<lambda>c. Connect c []) [1, 2, 3, 4, 5]"

text \<open>The identifiers the server has announced in its \<open>[CONNECTED]\<close> lines, in order.\<close>

fun connected_ids :: "log_line list \<Rightarrow> int list" where
  "connected_ids [] = []"
| "connected_ids (Connected i # ls) = i # connected_ids ls"
| "connected_ids (l # ls) = connected_ids ls"

text \<open>The identifiers issued so far are \<open>1, 2, ...\<close> up to the counter, and the registered
  sockets hold different ones.\<close>

definition ids_ok :: "server \<Rightarrow> bool" where
  "ids_ok s =
     (connected_ids (out s) = [1 .. next_player_id s - 1] \<and> 1 \<le> next_player_id s \<and>
      (\<forall>c p. client_ids s c = Some p \<longrightarrow> 1 \<le> p \<and> p < next_player_id s) \<and>
      (\<forall>c c' p. client_ids s c = Some p \<and> client_ids s c' = Some p \<longrightarrow> c = c'))"

definition reconnect :: "event list" where
  "reconnect = [Connect 1 [], Receive 1 Eof [], Connect 1 []]"

text \<open>A client whose identifier is the string \<open>7\<close>.\<close>

definition player_seven :: client where
  "player_seven = new_client (Plain (JStr (ustr ''7'')))"

section \<open>The ranking as the specification describes it\<close>

text \<open>
  The specification's data model, written from its words and not from the code. A
  ScoreUpdate is a JSON object whose \<open>"pumps"\<close> is an integer, its pump count. (The
  specification's pump counts are moreover non-negative; nothing below needs that.)
\<close>

fun pump_count :: "json \<Rightarrow> int option" where
  "pump_count (JObj kvs) =
     (case map_of kvs (ustr ''pumps'') of Some (JInt n) \<Rightarrow> Some n | _ \<Rightarrow> None)"
| "pump_count v = None"

definition score_update :: "json \<Rightarrow> bool" where
  "score_update v = (case pump_count v of None \<Rightarrow> False | Some n \<Rightarrow> True)"

definition count_of :: "json \<Rightarrow> int" where
  "count_of v = (case pump_count v of None \<Rightarrow> 0 | Some n \<Rightarrow> n)"

text \<open>A list of score updates sorted descending by pump count.\<close>

definition descending :: "json list \<Rightarrow> bool" where
  "descending xs =
     (list_all score_update xs \<and> sorted_wrt (\<lambda>a b. count_of b \<le> count_of a) xs)"

text \<open>
  The specification's \<open>recordUpdate(entry)\<close>: insert the new entry, sort again descending
  by pump count with ties in insertion order, cut to the capacity.
\<close>

definition recordUpdate :: "json \<Rightarrow> json list \<Rightarrow> json list" where
  "recordUpdate e lb = take MAX_LEADERBOARD (sort_key (\<lambda>x. - count_of x) (lb @ [e]))"

text \<open>An event that delivers a JSON value delivers a score update.\<close>

fun score_update_event :: "event \<Rightarrow> bool" where
  "score_update_event (Receive c (Bytes (Json v)) bad) = score_update v"
| "score_update_event ev = True"

text \<open>A sent snapshot is sorted descending and within the capacity.\<close>

fun ranked_snapshot :: "conn \<times> wire \<Rightarrow> bool" where
  "ranked_snapshot (c, Snapshot lb) = (descending lb \<and> length lb \<le> MAX_LEADERBOARD)"
| "ranked_snapshot (c, ServerFull) = True"

definition ranked :: "server \<Rightarrow> bool" where
  "ranked s = (descending (leaderbord s) \<and> length (leaderbord s) \<le> MAX_LEADERBOARD \<and>
               list_all ranked_snapshot (sent s))"

text \<open>Two clients send eight updates.\<close>

definition eight_updates :: "event list" where
  "eight_updates =
     [Connect 1 [], Connect 2 [],
      Receive 1 (Bytes (Json (entry ''1'' 30))) [], Receive 2 (Bytes (Json (entry ''2'' 10))) [],
      Receive 1 (Bytes (Json (entry ''1'' 40))) [], Receive 2 (Bytes (Json (entry ''2'' 15))) [],
      Receive 1 (Bytes (Json (entry ''1'' 50))) [], Receive 2 (Bytes (Json (entry ''2'' 90))) [],
      Receive 1 (Bytes (Json (entry ''1'' 20))) [], Receive 2 (Bytes (Json (entry ''2'' 60))) []]"

text \<open>An update whose \<open>"pumps"\<close> is the character U+001C followed by the digit seven.\<close>

definition padded_seven :: json where
  "padded_seven = JObj [(ustr ''id'', JStr (ustr ''1'')), (ustr ''pumps'', JStr [0x1C, 0x37])]"

section \<open>Reading integers\<close>

lemmas int_of_str_defs = int_of_str_def to_ascii_def strip_def is_space_def is_digit_def
  digit_val_def parse_unsigned_def to_decimal_def unicode_spaces_def decimal_zeros_def
  MAX_STR_DIGITS_def ustr_def Let_def

text \<open>The reading of some strings, among them ones with characters outside ASCII.\<close>

lemma int_of_str_examples:
  "int_of_str (ustr ''12'') = Some 12"
  "int_of_str (ustr '' -1_0 '') = Some (- 10)"
  "int_of_str (ustr ''+007'') = Some 7"
  "int_of_str (ustr ''1__0'') = None"
  "int_of_str (ustr ''- 5'') = None"
  "int_of_str (ustr ''5_'') = None"
  "int_of_str (ustr ''abc'') = None"
  "int_of_str [] = None"
  "int_of_str [0x1C, 0x37] = None"
  "int_of_str [0xA0, 0x35] = Some 5"
  "int_of_str [0x663] = Some 3"
  "int_of_str [0x1D7D2, 0xFF12, 0x3000] = Some 42"
  "int_of_str [0x35, 0xB2] = None"
  by (simp_all add: int_of_str_defs)

section \<open>Sorting by pump count\<close>

lemma ustr_eq [simp]: "ustr s = ustr t \<longleftrightarrow> s = t"
proof -
  have "inj (of_char :: char \<Rightarrow> nat)" by (simp add: inj_def)
  then show ?thesis unfolding ustr_def by (rule inj_map_eq_map)
qed

lemma pumps_keys_append_fail:
  "pumps_key v = Inl e \<Longrightarrow> \<exists>e'. pumps_keys (xs @ [v]) = Inl e'"
  by (induction xs) (auto split: sum.splits)

section \<open>What a handler does to the ranking and to the sockets\<close>

lemma finally_block_simps:
  "leaderbord (finally_block c pid s) = leaderbord s"
  "sent (finally_block c pid s) = sent s"
  "next_player_id (finally_block c pid s) = next_player_id s"
  "refusing (finally_block c pid s) = refusing s"
  "halted (finally_block c pid s) = halted s"
  "clients (finally_block c pid s) = remove1 c (clients s)"
  "threads (finally_block c pid s) = (threads s)(c := None)"
  "closed (finally_block c pid s) = closed s @ [c]"
  by (simp_all add: finally_block_def Let_def remove1_idem)

lemma broadcast_fst:
  "fst (broadcast bad m cs) = map (\<lambda>c. (c, m)) (takeWhile (\<lambda>c. c \<notin> set bad) cs)"
  by (induction cs) (auto split: prod.splits)

lemma broadcast_snd:
  "snd (broadcast bad m cs) = (if \<forall>c \<in> set cs. c \<notin> set bad then Inr () else Inl OSError)"
  by (induction cs) (auto split: prod.splits)

lemma recv_leaderbord:
  "threads s c = Some pid \<Longrightarrow>
   leaderbord (handle_client_recv c (Bytes (Json v)) bad s) = fst (record_update v (leaderbord s))"
  by (auto simp: handle_client_recv_def try_body_def Let_def finally_block_simps
           split: prod.splits sum.splits)

lemma recv_leaderbord_other:
  assumes "\<forall>v. r \<noteq> Bytes (Json v)"
  shows "leaderbord (handle_client_recv c r bad s) = leaderbord s"
proof (cases "threads s c")
  case None
  then show ?thesis by (simp add: handle_client_recv_def)
next
  case (Some pid)
  show ?thesis
  proof (cases r)
    case (Bytes p)
    with assms have "p = NotUtf8 \<or> p = NotJson \<or> p = TooDeep" by (cases p) auto
    then show ?thesis using Some Bytes
      by (auto simp: handle_client_recv_def try_body_def finally_block_simps)
  qed (simp_all add: Some handle_client_recv_def finally_block_simps)
qed

lemma recv_leaderbord_dead:
  "threads s c = None \<Longrightarrow> handle_client_recv c r bad s = s"
  by (simp add: handle_client_recv_def)

lemma recv_sent:
  "sent (handle_client_recv c r bad s) = sent s @
     (case threads s c of None \<Rightarrow> []
      | Some pid \<Rightarrow>
         (case r of
            Bytes (Json v) \<Rightarrow>
              (case record_update v (leaderbord s) of
                 (lb, Inr u) \<Rightarrow> fst (broadcast bad (Snapshot lb) (clients s))
               | (lb, Inl e) \<Rightarrow> [])
          | _ \<Rightarrow> []))"
  by (auto simp: handle_client_recv_def try_body_def Let_def finally_block_simps
           split: option.splits recv_result.splits payload.splits prod.splits sum.splits)

lemma accept_leaderbord: "leaderbord (accept_conn c bad s) = leaderbord s"
  by (simp add: accept_conn_def loop_head_def handle_client_start_def Let_def)

section \<open>Runs of the server\<close>

lemmas server_defs = run_def init_def accept_conn_def loop_head_def handle_client_start_def
  handle_client_recv_def try_body_def record_update_def sorted_by_pumps_def pumps_key_def
  finally_block_def MAX_PLAYERS_def MAX_LEADERBOARD_def Let_def entry_def

lemma run_Nil: "run [] s = s"
  by (simp add: run_def)

lemma run_Cons: "run (ev # evs) s = run evs (step ev s)"
  by (simp add: run_def)

lemma run_append: "run (evs @ evs') s = run evs' (run evs s)"
  by (simp add: run_def)

section \<open>Updates in increasing order\<close>

lemma pumps_keys_ok:
  "list_all has_pumps xs \<Longrightarrow> pumps_keys xs = Inr (map (\<lambda>x. (key_of x, x)) xs)"
  by (induction xs) (auto simp: has_pumps_def key_of_def split: sum.splits)

lemma pumps_keys_Inr_conv:
  "pumps_keys xs = Inr ks \<Longrightarrow> list_all has_pumps xs \<and> ks = map (\<lambda>x. (key_of x, x)) xs"
  by (induction xs arbitrary: ks) (auto simp: has_pumps_def key_of_def split: sum.splits)

lemma insort_key_decorate:
  "insort_key (\<lambda>p. - fst p) (g x, x) (map (\<lambda>x. (g x, x)) ys) =
   map (\<lambda>x. (g x, x)) (insort_key (\<lambda>x. - g x) x ys)"
  for g :: "'a \<Rightarrow> int"
  by (induction ys) auto

lemma sort_key_decorate:
  "sort_key (\<lambda>p. - fst p) (map (\<lambda>x. (g x, x)) xs) = map (\<lambda>x. (g x, x)) (sort_key (\<lambda>x. - g x) xs)"
  for g :: "'a \<Rightarrow> int"
  by (induction xs) (simp_all add: insort_key_decorate)

lemma sorted_by_pumps_ok:
  "list_all has_pumps xs \<Longrightarrow> sorted_by_pumps xs = Inr (sort_key (\<lambda>x. - key_of x) xs)"
  by (simp add: sorted_by_pumps_def pumps_keys_ok sort_key_decorate comp_def)

lemma strictly_increasing_conv:
  "strictly_increasing vs = (list_all has_pumps vs \<and> sorted_wrt (<) (map key_of vs))"
proof (cases "pumps_keys vs")
  case (Inl e)
  then have "\<not> list_all has_pumps vs" using pumps_keys_ok[of vs] by auto
  with Inl show ?thesis by (simp add: strictly_increasing_def)
next
  case (Inr ks)
  from pumps_keys_Inr_conv[OF this] Inr show ?thesis
    by (simp add: strictly_increasing_def comp_def)
qed

lemma sort_key_snoc_least:
  "\<forall>y \<in> set xs. f x < f y \<Longrightarrow> sort_key f (xs @ [x]) = x # sort_key f xs"
  for f :: "'a \<Rightarrow> int"
  by (induction xs) auto

lemma record_update_increasing:
  assumes "strictly_increasing (us @ [v])"
  shows "record_update v (take MAX_LEADERBOARD (rev us)) =
         (take MAX_LEADERBOARD (rev (us @ [v])), Inr ())"
proof -
  let ?f = "\<lambda>x. - key_of x"
  let ?lb = "take MAX_LEADERBOARD (rev us)"
  from assms have ok: "list_all has_pumps us" "has_pumps v"
    and inc: "sorted_wrt (<) (map key_of us)" and top: "\<forall>u \<in> set us. key_of u < key_of v"
    by (auto simp: strictly_increasing_conv sorted_wrt_append)
  have valid: "list_all has_pumps (?lb @ [v])"
    using ok by (auto simp: list_all_iff dest: in_set_takeD)
  have "sorted_wrt (\<lambda>a b. b < a) (map key_of (rev us))"
    using inc by (simp add: sorted_wrt_rev rev_map[symmetric])
  then have "sorted_wrt (\<lambda>a b. ?f a \<le> ?f b) (rev us)"
    by (auto simp: sorted_wrt_map intro: sorted_wrt_mono_rel[rotated])
  then have "sorted (map ?f ?lb)"
    by (simp add: sorted_wrt_map)
  then have same: "sort_key ?f ?lb = ?lb" by (rule sort_key_id_if_sorted)
  have "\<forall>y \<in> set ?lb. ?f v < ?f y" using top by (auto dest: in_set_takeD)
  then have "sort_key ?f (?lb @ [v]) = v # ?lb"
    using same by (simp add: sort_key_snoc_least)
  moreover have "take MAX_LEADERBOARD (v # ?lb) = take MAX_LEADERBOARD (rev (us @ [v]))"
    by (simp add: MAX_LEADERBOARD_def take_Cons')
  ultimately show ?thesis
    using sorted_by_pumps_ok[OF valid] by (simp add: record_update_def)
qed

lemma broadcast_no_failure: "broadcast [] m cs = (map (\<lambda>c. (c, m)) cs, Inr ())"
  by (induction cs) auto

lemma recv_ok_state:
  assumes "threads s c = Some pid" and "record_update v (leaderbord s) = (lb', Inr ())"
  shows "handle_client_recv c (Bytes (Json v)) [] s =
         s\<lparr>leaderbord := lb', sent := sent s @ map (\<lambda>r. (r, Snapshot lb')) (clients s),
           out := out s @ [Board lb']\<rparr>"
  using assms by (simp add: handle_client_recv_def try_body_def broadcast_no_failure)

lemma run_updates:
  assumes "threads s c = Some pid" and "\<not> halted s"
    and "leaderbord s = take MAX_LEADERBOARD (rev us)" and "strictly_increasing (us @ vs)"
  shows "leaderbord (run (map (\<lambda>v. Receive c (Bytes (Json v)) []) vs) s) =
         take MAX_LEADERBOARD (rev (us @ vs))"
  using assms
proof (induction vs arbitrary: s us)
  case Nil
  then show ?case by (simp add: run_Nil)
next
  case (Cons v vs)
  let ?s' = "step (Receive c (Bytes (Json v)) []) s"
  from Cons.prems(4) have "strictly_increasing (us @ [v])"
    by (auto simp: strictly_increasing_conv sorted_wrt_append)
  from record_update_increasing[OF this] Cons.prems(3)
  have ru: "record_update v (leaderbord s) = (take MAX_LEADERBOARD (rev (us @ [v])), Inr ())"
    by simp
  from recv_ok_state[OF Cons.prems(1) ru] Cons.prems(1,2)
  have s': "threads ?s' c = Some pid" "\<not> halted ?s'"
    "leaderbord ?s' = take MAX_LEADERBOARD (rev (us @ [v]))"
    by simp_all
  from Cons.IH[OF s'] Cons.prems(4) show ?case by (simp add: run_Cons)
qed

section \<open>Ten increasing updates\<close>

text \<open>
  Claim C4. With the capacity \<open>MAX_LEADERBOARD = 8\<close>: one client connects to the freshly
  started server and sends ten updates whose pump counts increase strictly, and no send
  fails. Afterwards the ranking holds exactly the last eight of them, the highest first;
  the first two updates are absent.
\<close>

theorem ten_increasing_updates:
  assumes "length vs = 10" and "strictly_increasing vs"
  shows "leaderbord (run (Connect c [] # map (\<lambda>v. Receive c (Bytes (Json v)) []) vs) init) =
         rev (drop 2 vs)"
proof -
  let ?s = "step (Connect c []) init"
  have s: "threads ?s c = Some 1" "\<not> halted ?s" "leaderbord ?s = take MAX_LEADERBOARD (rev [])"
    by (simp_all add: init_def accept_conn_def loop_head_def handle_client_start_def
          MAX_PLAYERS_def)
  from run_updates[OF s, of vs] assms(2)
  have "leaderbord (run (Connect c [] # map (\<lambda>v. Receive c (Bytes (Json v)) []) vs) init) =
        take MAX_LEADERBOARD (rev vs)"
    by (simp add: run_Cons)
  also have "\<dots> = rev (drop 2 vs)" using assms(1) by (simp add: take_rev MAX_LEADERBOARD_def)
  finally show ?thesis .
qed

theorem ten_increasing_updates_witness:
  "length ten_entries = 10 \<and> strictly_increasing ten_entries \<and>
   leaderbord (run (Connect 1 [] # map (\<lambda>v. Receive 1 (Bytes (Json v)) []) ten_entries) init) =
     [entry ''2'' 10, entry ''1'' 9, entry ''2'' 8, entry ''1'' 7,
      entry ''2'' 6, entry ''1'' 5, entry ''2'' 4, entry ''1'' 3]"
proof -
  have l: "length ten_entries = 10" by (simp add: ten_entries_def)
  have i: "strictly_increasing ten_entries"
    by (simp add: ten_entries_def strictly_increasing_def entry_def pumps_key_def)
  from ten_increasing_updates[OF l i, of 1] l i show ?thesis
    by (simp add: ten_entries_def)
qed

section \<open>Messages that end a handler\<close>

lemma finally_block_out:
  "out (finally_block c pid s) = out s @
     (if c \<in> set (clients s) then [Disconnected pid, Info (length (clients s) - 1)] else [])"
  by (simp add: finally_block_def Let_def length_remove1)

lemma finally_block_client_ids:
  "client_ids (finally_block c pid s) =
     (if c \<in> set (clients s) then (client_ids s)(c := None) else client_ids s)"
  by (simp add: finally_block_def Let_def)

lemma py_int_exn: "py_int v = Inl e \<Longrightarrow> e \<in> {TypeError, ValueError, OverflowError}"
  by (induction v rule: py_int.induct) (auto split: option.splits)

lemma pumps_key_exn:
  "pumps_key x = Inl e \<Longrightarrow> e \<in> {KeyError, TypeError, ValueError, OverflowError}"
  by (cases x) (auto simp: pumps_key_def split: option.splits sum.splits dest: py_int_exn)

lemma pumps_keys_exn:
  "pumps_keys xs = Inl e \<Longrightarrow> e \<in> {KeyError, TypeError, ValueError, OverflowError}"
  by (induction xs) (auto split: sum.splits dest: pumps_key_exn)

lemma record_update_malformed:
  assumes "pumps_key v = Inl e"
  shows "\<exists>e'. e' \<in> {KeyError, TypeError, ValueError, OverflowError} \<and>
              record_update v lb = (lb @ [v], Inl e')"
proof -
  from pumps_keys_append_fail[OF assms, of lb] obtain e' where e': "pumps_keys (lb @ [v]) = Inl e'"
    by blast
  from pumps_keys_exn[OF e'] e' show ?thesis
    by (simp add: record_update_def sorted_by_pumps_def)
qed

text \<open>
  Claim C10. A handler that receives a JSON value without a \<open>"pumps"\<close> entry that \<open>int\<close>
  converts does not take the branch for undecodable JSON: \<open>sorted\<close> raises a KeyError,
  TypeError, ValueError or OverflowError, the outer handler prints it, and the \<open>finally\<close>
  block closes the sender's connection, unregisters it and ends its handler. Nothing is
  broadcast, and the value stays appended to the ranking.
\<close>

theorem malformed_update_ends_handler:
  assumes "threads s c = Some pid" and "\<not> halted s" and "pumps_key v = Inl e"
  shows "\<exists>e'. e' \<in> {KeyError, TypeError, ValueError, OverflowError} \<and>
           step (Receive c (Bytes (Json v)) bad) s =
             finally_block c pid
               (s\<lparr>leaderbord := leaderbord s @ [v], out := out s @ [HandlerError pid e']\<rparr>) \<and>
           threads (step (Receive c (Bytes (Json v)) bad) s) c = None \<and>
           closed (step (Receive c (Bytes (Json v)) bad) s) = closed s @ [c] \<and>
           clients (step (Receive c (Bytes (Json v)) bad) s) = remove1 c (clients s) \<and>
           sent (step (Receive c (Bytes (Json v)) bad) s) = sent s \<and>
           leaderbord (step (Receive c (Bytes (Json v)) bad) s) = leaderbord s @ [v] \<and>
           ParseError \<notin> set (drop (length (out s)) (out (step (Receive c (Bytes (Json v)) bad) s)))"
proof -
  from record_update_malformed[OF assms(3), of "leaderbord s"] obtain e'
    where e': "e' \<in> {KeyError, TypeError, ValueError, OverflowError}"
      and ru: "record_update v (leaderbord s) = (leaderbord s @ [v], Inl e')"
    by blast
  from e' have ne: "e' \<noteq> JSONDecodeError" by auto
  have st: "step (Receive c (Bytes (Json v)) bad) s =
             finally_block c pid
               (s\<lparr>leaderbord := leaderbord s @ [v], out := out s @ [HandlerError pid e']\<rparr>)"
    using assms(1,2) ru ne by (simp add: handle_client_recv_def try_body_def)
  show ?thesis
    apply (rule exI[of _ e'])
    using e' st by (simp add: finally_block_simps finally_block_out)
qed

lemma one_client_state:
  "threads one_client 1 = Some 1" "\<not> halted one_client" "clients one_client = [1]"
  "leaderbord one_client = []" "closed one_client = []" "sent one_client = []"
  "out one_client = [Connected 1, Info 1]"
  by (simp_all add: one_client_def server_defs)

theorem malformed_update_ends_handler_witness:
  "threads one_client 1 = Some 1 \<and> \<not> halted one_client \<and> pumps_key no_pumps = Inl KeyError \<and>
   threads (step (Receive 1 (Bytes (Json no_pumps)) []) one_client) 1 = None \<and>
   closed (step (Receive 1 (Bytes (Json no_pumps)) []) one_client) = [1] \<and>
   clients (step (Receive 1 (Bytes (Json no_pumps)) []) one_client) = [] \<and>
   leaderbord (step (Receive 1 (Bytes (Json no_pumps)) []) one_client) = [no_pumps] \<and>
   pumps_key padded_seven = Inl ValueError \<and>
   threads (step (Receive 1 (Bytes (Json padded_seven)) []) one_client) 1 = None \<and>
   closed (step (Receive 1 (Bytes (Json padded_seven)) []) one_client) = [1] \<and>
   sent (step (Receive 1 (Bytes (Json padded_seven)) []) one_client) = []"
proof -
  have k: "pumps_key no_pumps = Inl KeyError" by (simp add: pumps_key_def no_pumps_def)
  have p: "pumps_key padded_seven = Inl ValueError"
    by (simp add: pumps_key_def padded_seven_def int_of_str_defs)
  from malformed_update_ends_handler[OF one_client_state(1,2) k, of "[]"]
    malformed_update_ends_handler[OF one_client_state(1,2) p, of "[]"] k p one_client_state
  show ?thesis by auto
qed

text \<open>Strings that \<open>int\<close> does and does not convert, as values of \<open>"pumps"\<close>.\<close>

lemma pumps_key_examples:
  "pumps_key (JObj [(ustr ''pumps'', JStr (ustr ''7''))]) = Inr 7"
  "pumps_key (JObj [(ustr ''pumps'', JStr [0xA0, 0x35])]) = Inr 5"
  "pumps_key (JObj [(ustr ''pumps'', JStr [0x663])]) = Inr 3"
  "pumps_key (JObj [(ustr ''pumps'', JStr [0x1C, 0x37])]) = Inl ValueError"
  "pumps_key (JObj [(ustr ''pumps'', JBool True)]) = Inr 1"
  "pumps_key (JObj [(ustr ''pumps'', JNull)]) = Inl TypeError"
  "pumps_key (JArr [JInt 1]) = Inl TypeError"
  by (simp_all add: pumps_key_def int_of_str_defs)

lemma undecodable_json_continues:
  assumes "threads s c = Some pid" and "\<not> halted s"
  shows "step (Receive c (Bytes NotJson) bad) s = s\<lparr>out := out s @ [ParseError]\<rparr>"
  using assms by (simp add: handle_client_recv_def try_body_def)

lemma invalid_utf8_ends_handler:
  assumes "threads s c = Some pid" and "\<not> halted s"
  shows "step (Receive c (Bytes NotUtf8) bad) s =
         finally_block c pid (s\<lparr>out := out s @ [HandlerError pid UnicodeDecodeError]\<rparr>)"
  using assms by (simp add: handle_client_recv_def try_body_def)

text \<open>
  Claim C3. Bytes that are not valid UTF-8 make \<open>data.decode()\<close> raise a UnicodeDecodeError,
  which the clause for \<open>json.JSONDecodeError\<close> does not catch: the only client of a server
  sends such bytes, and its handler prints the error, closes the connection, unregisters
  it and ends, where undecodable JSON only prints a line and leaves the handler running.
\<close>

theorem invalid_utf8_disconnects_sender:
  "threads (step (Receive 1 (Bytes NotUtf8) []) one_client) 1 = None \<and>
   closed (step (Receive 1 (Bytes NotUtf8) []) one_client) = [1] \<and>
   clients (step (Receive 1 (Bytes NotUtf8) []) one_client) = [] \<and>
   out (step (Receive 1 (Bytes NotUtf8) []) one_client) =
     [Connected 1, Info 1, HandlerError 1 UnicodeDecodeError, Disconnected 1, Info 0] \<and>
   threads (step (Receive 1 (Bytes NotJson) []) one_client) 1 = Some 1 \<and>
   closed (step (Receive 1 (Bytes NotJson) []) one_client) = [] \<and>
   out (step (Receive 1 (Bytes NotJson) []) one_client) = [Connected 1, Info 1, ParseError]"
  using invalid_utf8_ends_handler[OF one_client_state(1,2), of "[]"]
    undecodable_json_continues[OF one_client_state(1,2), of "[]"] one_client_state
  by (simp add: finally_block_simps finally_block_out)

section \<open>A failing send during a broadcast\<close>

lemma broadcast_stops_at_failure:
  assumes "f \<in> set bad" and "\<forall>r \<in> set pre. r \<notin> set bad"
  shows "broadcast bad m (pre @ f # post) = (map (\<lambda>r. (r, m)) pre, Inl OSError)"
  using assms by (induction pre) auto

text \<open>
  Claim C2, as the code has it. A handler receives an update and the send to the recipient
  \<open>f\<close> is the first to fail. The recipients before \<open>f\<close> in \<open>clients\<close> have been sent the
  snapshot and no one else is sent it; the sender's handler prints the error, closes the
  sender's connection, unregisters the sender and ends; \<open>f\<close> stays registered unless it is
  the sender, and no other handler ends.
\<close>

theorem failed_send_ends_sender:
  assumes "threads s c = Some pid" and "\<not> halted s"
    and "record_update v (leaderbord s) = (lb, Inr ())"
    and "clients s = pre @ f # post" and "f \<in> set bad" and "\<forall>r \<in> set pre. r \<notin> set bad"
  shows "sent (step (Receive c (Bytes (Json v)) bad) s) = sent s @ map (\<lambda>r. (r, Snapshot lb)) pre \<and>
         clients (step (Receive c (Bytes (Json v)) bad) s) = remove1 c (clients s) \<and>
         (f \<noteq> c \<longrightarrow> f \<in> set (clients (step (Receive c (Bytes (Json v)) bad) s))) \<and>
         threads (step (Receive c (Bytes (Json v)) bad) s) = (threads s)(c := None) \<and>
         closed (step (Receive c (Bytes (Json v)) bad) s) = closed s @ [c] \<and>
         leaderbord (step (Receive c (Bytes (Json v)) bad) s) = lb \<and>
         take 2 (drop (length (out s)) (out (step (Receive c (Bytes (Json v)) bad) s))) =
           [Board lb, HandlerError pid OSError]"
proof -
  let ?s3 = "s\<lparr>leaderbord := lb, out := out s @ [Board lb],
               sent := sent s @ map (\<lambda>r. (r, Snapshot lb)) pre\<rparr>"
  have st: "step (Receive c (Bytes (Json v)) bad) s =
            finally_block c pid (?s3\<lparr>out := out ?s3 @ [HandlerError pid OSError]\<rparr>)"
    using assms(1-4) broadcast_stops_at_failure[OF assms(5,6)]
    by (simp add: handle_client_recv_def try_body_def)
  show ?thesis unfolding st using assms(4) by (simp add: finally_block_simps finally_block_out)
qed

lemma three_clients_state:
  "threads three_clients 1 = Some 1" "\<not> halted three_clients" "clients three_clients = [1, 2, 3]"
  "leaderbord three_clients = []" "closed three_clients = []" "sent three_clients = []"
  "threads three_clients 2 = Some 2" "threads three_clients 3 = Some 3"
  by (simp_all add: three_clients_def server_defs)

theorem failed_send_ends_sender_witness:
  "threads three_clients 1 = Some 1 \<and> \<not> halted three_clients \<and>
   record_update (entry ''1'' 5) (leaderbord three_clients) = ([entry ''1'' 5], Inr ()) \<and>
   clients three_clients = [1] @ 2 # [3] \<and> (2::nat) \<in> set [2] \<and>
   list_all (\<lambda>r. r \<notin> set [2::nat]) [1] \<and>
   sent (step (Receive 1 (Bytes (Json (entry ''1'' 5))) [2]) three_clients) =
     [(1, Snapshot [entry ''1'' 5])] \<and>
   clients (step (Receive 1 (Bytes (Json (entry ''1'' 5))) [2]) three_clients) = [2, 3] \<and>
   closed (step (Receive 1 (Bytes (Json (entry ''1'' 5))) [2]) three_clients) = [1]"
proof -
  have ru: "record_update (entry ''1'' 5) (leaderbord three_clients) = ([entry ''1'' 5], Inr ())"
    by (simp add: three_clients_state record_update_def sorted_by_pumps_def pumps_key_def
          entry_def MAX_LEADERBOARD_def)
  have cl: "clients three_clients = [1] @ 2 # [3]" by (simp add: three_clients_state)
  have f: "(2::nat) \<in> set [2]" and p: "\<forall>r \<in> set [1::nat]. r \<notin> set [2]" by simp_all
  from failed_send_ends_sender[OF three_clients_state(1,2) ru cl f p] ru three_clients_state
  show ?thesis by simp
qed

text \<open>
  Claim C2, as stated, fails: three clients are connected, client 1 sends an update and the
  send to client 2 fails. Client 3 is sent nothing, client 2 stays registered with its handler, and the
  handler of the sender, client 1, ends with its connection closed and unregistered.
\<close>

theorem failed_send_counterexample:
  "(3, Snapshot [entry ''1'' 5]) \<notin> set (sent (step (Receive 1 (Bytes (Json (entry ''1'' 5))) [2]) three_clients)) \<and>
   2 \<in> set (clients (step (Receive 1 (Bytes (Json (entry ''1'' 5))) [2]) three_clients)) \<and>
   threads (step (Receive 1 (Bytes (Json (entry ''1'' 5))) [2]) three_clients) 2 = Some 2 \<and>
   threads (step (Receive 1 (Bytes (Json (entry ''1'' 5))) [2]) three_clients) 1 = None \<and>
   1 \<in> set (closed (step (Receive 1 (Bytes (Json (entry ''1'' 5))) [2]) three_clients)) \<and>
   1 \<notin> set (clients (step (Receive 1 (Bytes (Json (entry ''1'' 5))) [2]) three_clients))"
  by (simp add: three_clients_def server_defs)

section \<open>The registry and the accept loop\<close>

lemma recv_fields:
  "refusing (handle_client_recv c r bad s) = refusing s"
  "halted (handle_client_recv c r bad s) = halted s"
  "next_player_id (handle_client_recv c r bad s) = next_player_id s"
  by (auto simp: handle_client_recv_def try_body_def Let_def finally_block_simps
           split: option.splits recv_result.splits prod.splits sum.splits)

lemma recv_registry:
  "(clients (handle_client_recv c r bad s) = clients s \<and>
    threads (handle_client_recv c r bad s) = threads s \<and>
    client_ids (handle_client_recv c r bad s) = client_ids s) \<or>
   (threads s c \<noteq> None \<and>
    clients (handle_client_recv c r bad s) = remove1 c (clients s) \<and>
    threads (handle_client_recv c r bad s) = (threads s)(c := None) \<and>
    client_ids (handle_client_recv c r bad s) =
      (if c \<in> set (clients s) then (client_ids s)(c := None) else client_ids s))"
  by (auto simp: handle_client_recv_def try_body_def Let_def finally_block_simps
                 finally_block_client_ids
           split: option.splits recv_result.splits prod.splits sum.splits)

lemma accept_conn_cases:
  obtains (stale) "accept_conn c bad s = s"
  | (admit) "\<not> refusing s" and "c \<notin> set (clients s)"
      and "accept_conn c bad s = loop_head (handle_client_start c (s\<lparr>clients := clients s @ [c]\<rparr>))"
  | (crash) "refusing s" and "c \<in> set bad" and "accept_conn c bad s = s\<lparr>halted := True\<rparr>"
  | (reject) "refusing s" and "c \<notin> set bad" and "c \<notin> set (clients s)"
      and "accept_conn c bad s =
           loop_head (s\<lparr>sent := sent s @ [(c, ServerFull)], closed := closed s @ [c]\<rparr>)"
proof (cases "c \<in> set (clients s) \<or> threads s c \<noteq> None \<or> client_ids s c \<noteq> None")
  case True
  then have "accept_conn c bad s = s" by (simp add: accept_conn_def)
  then show ?thesis by (rule stale)
next
  case fresh: False
  show ?thesis
  proof (cases "refusing s")
    case False
    with fresh show ?thesis by (intro admit) (simp_all add: accept_conn_def)
  next
    case True
    show ?thesis
    proof (cases "c \<in> set bad")
      case True
      with fresh \<open>refusing s\<close> show ?thesis by (intro crash) (simp_all add: accept_conn_def)
    next
      case False
      with fresh \<open>refusing s\<close> show ?thesis by (intro reject) (simp_all add: accept_conn_def)
    qed
  qed
qed

lemma loop_head_fields:
  "clients (loop_head s) = clients s" "threads (loop_head s) = threads s"
  "client_ids (loop_head s) = client_ids s" "sent (loop_head s) = sent s"
  "closed (loop_head s) = closed s" "halted (loop_head s) = halted s"
  "next_player_id (loop_head s) = next_player_id s" "leaderbord (loop_head s) = leaderbord s"
  "refusing (loop_head s) = (\<not> length (clients s) < MAX_PLAYERS)"
  by (simp_all add: loop_head_def)

lemma start_fields:
  "clients (handle_client_start c s) = clients s"
  "threads (handle_client_start c s) = (threads s)(c \<mapsto> next_player_id s)"
  "client_ids (handle_client_start c s) = (client_ids s)(c \<mapsto> next_player_id s)"
  "sent (handle_client_start c s) = sent s" "closed (handle_client_start c s) = closed s"
  "halted (handle_client_start c s) = halted s" "refusing (handle_client_start c s) = refusing s"
  "next_player_id (handle_client_start c s) = next_player_id s + 1"
  "out (handle_client_start c s) = out s @ [Connected (next_player_id s), Info (length (clients s))]"
  by (simp_all add: handle_client_start_def Let_def)

lemma step_registry_ok:
  assumes "registry_ok s"
  shows "registry_ok (step ev s)"
proof (cases ev)
  case (Connect c bad)
  show ?thesis
  proof (cases c bad s rule: accept_conn_cases)
    case stale
    with assms Connect show ?thesis by simp
  next
    case admit
    with assms have "length (clients s) < MAX_PLAYERS" by (simp add: registry_ok_def)
    with assms admit Connect show ?thesis
      by (auto simp: registry_ok_def loop_head_fields start_fields)
  next
    case crash
    with assms Connect show ?thesis by (simp add: registry_ok_def)
  next
    case reject
    with assms Connect show ?thesis by (auto simp: registry_ok_def loop_head_fields)
  qed
next
  case (Receive c r bad)
  show ?thesis
  proof (cases "halted s")
    case True
    with assms Receive show ?thesis by simp
  next
    case False
    from recv_registry[of c r bad s] show ?thesis
    proof (elim disjE conjE)
      assume "clients (handle_client_recv c r bad s) = clients s"
        "threads (handle_client_recv c r bad s) = threads s"
        "client_ids (handle_client_recv c r bad s) = client_ids s"
      with assms Receive False show ?thesis by (simp add: registry_ok_def recv_fields)
    next
      assume a: "clients (handle_client_recv c r bad s) = remove1 c (clients s)"
        "threads (handle_client_recv c r bad s) = (threads s)(c := None)"
        "client_ids (handle_client_recv c r bad s) =
           (if c \<in> set (clients s) then (client_ids s)(c := None) else client_ids s)"
        and live: "threads s c \<noteq> None"
      from assms live have c: "c \<in> set (clients s)" by (auto simp: registry_ok_def)
      from assms have d: "distinct (clients s)" by (simp add: registry_ok_def)
      from assms have le: "length (clients s) \<le> MAX_PLAYERS" by (simp add: registry_ok_def)
      from c have pos: "0 < length (clients s)" by (cases "clients s") auto
      from le pos have "length (clients s) - 1 < MAX_PLAYERS" by arith
      with c have "length (remove1 c (clients s)) < MAX_PLAYERS" by (simp add: length_remove1)
      moreover have "dom ((threads s)(c := None)) \<subseteq> set (remove1 c (clients s))"
        "dom ((client_ids s)(c := None)) \<subseteq> set (remove1 c (clients s))"
        using assms d by (auto simp: registry_ok_def)
      ultimately show ?thesis using a c d Receive False
        by (simp add: registry_ok_def recv_fields)
    qed
  qed
qed

lemma run_registry_ok: "registry_ok s \<Longrightarrow> registry_ok (run evs s)"
  by (induction evs arbitrary: s) (simp_all add: run_Nil run_Cons step_registry_ok)

lemma registry_ok_init: "registry_ok init"
  by (simp add: registry_ok_def init_def MAX_PLAYERS_def)

lemma broadcast_recipients: "fst ` set (fst (broadcast bad m cs)) \<subseteq> set cs"
  by (auto simp: broadcast_fst dest: set_takeWhileD)

lemma recv_sent_to:
  assumes "c \<notin> set (clients s)"
  shows "sent_to c (handle_client_recv c' r bad s) = sent_to c s"
proof -
  have "filter (\<lambda>m. fst m = c) (fst (broadcast bad m (clients s))) = []" for m
    using assms broadcast_recipients[of bad m "clients s"] by (auto simp: filter_empty_conv)
  then show ?thesis
    by (simp add: sent_to_def recv_sent split: option.splits recv_result.splits
          payload.splits prod.splits sum.splits)
qed

lemma step_stays_out:
  assumes "c \<notin> set (clients s)" and "threads s c = None" and "no_connect c ev"
  shows "c \<notin> set (clients (step ev s)) \<and> threads (step ev s) c = None \<and>
         sent_to c (step ev s) = sent_to c s"
proof (cases ev)
  case (Connect c' bad)
  with assms(3) have ne: "c' \<noteq> c" by simp
  show ?thesis
  proof (cases c' bad s rule: accept_conn_cases)
    case stale
    with assms Connect show ?thesis by simp
  next
    case admit
    with assms Connect ne show ?thesis
      by (simp add: loop_head_fields start_fields sent_to_def)
  next
    case crash
    with assms Connect show ?thesis by (simp add: sent_to_def)
  next
    case reject
    with assms Connect ne show ?thesis by (simp add: loop_head_fields sent_to_def)
  qed
next
  case (Receive c' r bad)
  from recv_registry[of c' r bad s] assms(1,2) Receive recv_sent_to[OF assms(1), of c' r bad]
  show ?thesis by (auto dest: notin_set_remove1)
qed

lemma run_stays_out:
  assumes "c \<notin> set (clients s)" and "threads s c = None" and "\<forall>ev \<in> set evs. no_connect c ev"
  shows "c \<notin> set (clients (run evs s)) \<and> threads (run evs s) c = None \<and>
         sent_to c (run evs s) = sent_to c s"
  using assms
proof (induction evs arbitrary: s)
  case Nil
  then show ?case by (simp add: run_Nil)
next
  case (Cons ev evs)
  from step_stays_out[OF Cons.prems(1,2), of ev] Cons.prems(3)
  have s: "c \<notin> set (clients (step ev s))" "threads (step ev s) c = None"
    "sent_to c (step ev s) = sent_to c s" by simp_all
  from Cons.IH[OF s(1,2)] Cons.prems(3) s(3) show ?case by (simp add: run_Cons)
qed

lemma full_server_rejects:
  assumes ok: "registry_ok s" and full: "length (clients s) = MAX_PLAYERS" and "\<not> halted s"
    and new: "c \<notin> set (clients s)" and "c \<notin> set bad"
  shows "step (Connect c bad) s =
         s\<lparr>sent := sent s @ [(c, ServerFull)], closed := closed s @ [c],
           out := out s @ [MaxPlayersWarning]\<rparr>"
proof -
  from ok full have r: "refusing s" by (simp add: registry_ok_def)
  from ok new have "threads s c = None" "client_ids s c = None"
    by (auto simp: registry_ok_def)
  with assms r show ?thesis by (simp add: accept_conn_def loop_head_def)
qed

lemma connects_admitted:
  assumes "distinct cs" and "length cs \<le> MAX_PLAYERS"
  shows "clients (run (map (\<lambda>c. Connect c []) cs) init) = cs \<and>
         sent (run (map (\<lambda>c. Connect c []) cs) init) = [] \<and>
         closed (run (map (\<lambda>c. Connect c []) cs) init) = [] \<and>
         \<not> halted (run (map (\<lambda>c. Connect c []) cs) init) \<and>
         refusing (run (map (\<lambda>c. Connect c []) cs) init) = (\<not> length cs < MAX_PLAYERS)"
  using assms
proof (induction cs rule: rev_induct)
  case Nil
  then show ?case by (simp add: run_Nil init_def MAX_PLAYERS_def)
next
  case (snoc c cs)
  let ?s = "run (map (\<lambda>c. Connect c []) cs) init"
  from snoc have s: "clients ?s = cs" "sent ?s = []" "closed ?s = []" "\<not> halted ?s" "\<not> refusing ?s"
    and c: "c \<notin> set cs"
    by simp_all
  have "registry_ok ?s" by (rule run_registry_ok[OF registry_ok_init])
  with s(1) c have "threads ?s c = None" "client_ids ?s c = None"
    by (auto simp: registry_ok_def)
  with s c have "step (Connect c []) ?s =
      loop_head (handle_client_start c (?s\<lparr>clients := clients ?s @ [c]\<rparr>))"
    by (simp add: accept_conn_def)
  with s show ?case by (simp add: run_append run_Cons run_Nil loop_head_fields start_fields)
qed

lemma five_clients_state:
  "clients (run five_clients init) = [1, 2, 3, 4, 5]" "\<not> halted (run five_clients init)"
  "sent (run five_clients init) = []"
  by (simp_all add: five_clients_def server_defs)

section \<open>Player identifiers\<close>

lemma connected_ids_append: "connected_ids (xs @ ys) = connected_ids xs @ connected_ids ys"
  by (induction xs rule: connected_ids.induct) simp_all

lemma recv_connected_ids:
  "connected_ids (out (handle_client_recv c r bad s)) = connected_ids (out s)"
  by (auto simp: handle_client_recv_def try_body_def Let_def finally_block_out
                 connected_ids_append
           split: option.splits recv_result.splits prod.splits sum.splits)

lemma loop_head_connected_ids: "connected_ids (out (loop_head s)) = connected_ids (out s)"
  by (simp add: loop_head_def connected_ids_append)

lemma step_ids_ok:
  assumes "ids_ok s"
  shows "ids_ok (step ev s)"
proof (cases "halted s")
  case True
  with assms show ?thesis by (cases ev) simp_all
next
  case live: False
  show ?thesis
  proof (cases ev)
    case (Connect c bad)
    show ?thesis
    proof (cases c bad s rule: accept_conn_cases)
      case stale
      with assms Connect show ?thesis by simp
    next
      case admit
      let ?n = "next_player_id s"
      let ?t = "accept_conn c bad s"
      from assms have n: "1 \<le> ?n" and ids: "connected_ids (out s) = [1 .. ?n - 1]"
        and rng: "\<And>c p. client_ids s c = Some p \<Longrightarrow> 1 \<le> p \<and> p < ?n"
        and inj: "\<And>c c' p. client_ids s c = Some p \<Longrightarrow> client_ids s c' = Some p \<Longrightarrow> c = c'"
        by (auto simp: ids_ok_def)
      from n have "[1 .. ?n - 1] @ [?n] = [1 .. ?n]" by (simp add: upto_rec2)
      with ids have a: "connected_ids (out ?t) = [1 .. next_player_id ?t - 1]"
        by (simp add: admit(3) loop_head_connected_ids loop_head_fields start_fields
              connected_ids_append)
      have cid: "client_ids ?t = (client_ids s)(c \<mapsto> ?n)" and nxt: "next_player_id ?t = ?n + 1"
        by (simp_all add: admit(3) loop_head_fields start_fields)
      have b: "1 \<le> next_player_id ?t" using n nxt by simp
      have r: "1 \<le> p \<and> p < next_player_id ?t" if "client_ids ?t d = Some p" for d p
      proof (cases "d = c")
        case True
        with that cid n nxt show ?thesis by simp
      next
        case False
        with that cid have "client_ids s d = Some p" by simp
        from rng[OF this] nxt show ?thesis by simp
      qed
      have i: "d = d'" if "client_ids ?t d = Some p" and "client_ids ?t d' = Some p" for d d' p
      proof (cases "d = c"; cases "d' = c")
        assume "d = c" "d' = c"
        then show ?thesis by simp
      next
        assume "d = c" "d' \<noteq> c"
        with that cid have "p = ?n" "client_ids s d' = Some p" by simp_all
        with rng[of d' p] show ?thesis by simp
      next
        assume "d \<noteq> c" "d' = c"
        with that cid have "p = ?n" "client_ids s d = Some p" by simp_all
        with rng[of d p] show ?thesis by simp
      next
        assume "d \<noteq> c" "d' \<noteq> c"
        with that cid have "client_ids s d = Some p" "client_ids s d' = Some p" by simp_all
        then show ?thesis by (rule inj)
      qed
      from a b r i have "ids_ok ?t" unfolding ids_ok_def by blast
      with Connect live show ?thesis by simp
    next
      case crash
      with assms Connect show ?thesis by (simp add: ids_ok_def)
    next
      case reject
      with assms Connect show ?thesis
        by (simp add: ids_ok_def loop_head_connected_ids loop_head_fields)
    qed
  next
    case (Receive c r bad)
    let ?t = "handle_client_recv c r bad s"
    from recv_registry[of c r bad s]
    have sub: "client_ids ?t d = Some p \<Longrightarrow> client_ids s d = Some p" for d p
      by (auto split: if_splits)
    from assms sub have "ids_ok ?t"
      unfolding ids_ok_def recv_connected_ids recv_fields by blast
    with Receive live show ?thesis by simp
  qed
qed

lemma run_ids_ok: "ids_ok s \<Longrightarrow> ids_ok (run evs s)"
  by (induction evs arbitrary: s) (simp_all add: run_Nil run_Cons step_ids_ok)

lemma ids_ok_init: "ids_ok init"
  by (simp add: ids_ok_def init_def)

lemma newly_registered:
  assumes "c \<in> set (clients (step (Connect c bad) s))" and "c \<notin> set (clients s)"
  shows "client_ids (step (Connect c bad) s) c = Some (next_player_id s) \<and>
         next_player_id (step (Connect c bad) s) = next_player_id s + 1"
proof (cases "halted s")
  case True
  with assms show ?thesis by simp
next
  case False
  show ?thesis
  proof (cases c bad s rule: accept_conn_cases)
    case stale
    with assms False show ?thesis by simp
  next
    case admit
    with False show ?thesis by (simp add: loop_head_fields start_fields)
  next
    case crash
    with assms False show ?thesis by simp
  next
    case reject
    with assms False show ?thesis by (simp add: loop_head_fields)
  qed
qed

text \<open>
  Claim C6. In every run of the server, the identifiers announced for the registered
  connections are, in the order of registration, \<open>1, 2, 3, ...\<close> up to the counter: each is
  positive, each is larger than the ones before, and none is issued twice, whether or not
  connections have ended in between. Every connection registered at the moment holds one
  of them, two such connections hold different ones, and a connection that gets registered
  is given the counter's value, after which the counter is one higher.
\<close>

theorem player_ids_increase_from_one:
  "connected_ids (out (run evs init)) = [1 .. next_player_id (run evs init) - 1] \<and>
   (\<forall>c p. client_ids (run evs init) c = Some p \<longrightarrow>
      1 \<le> p \<and> p < next_player_id (run evs init) \<and> p \<in> set (connected_ids (out (run evs init)))) \<and>
   (\<forall>c c' p. client_ids (run evs init) c = Some p \<and> client_ids (run evs init) c' = Some p \<longrightarrow>
      c = c') \<and>
   (\<forall>c bad. c \<in> set (clients (step (Connect c bad) (run evs init))) \<and>
             c \<notin> set (clients (run evs init)) \<longrightarrow>
      client_ids (step (Connect c bad) (run evs init)) c = Some (next_player_id (run evs init)) \<and>
      next_player_id (step (Connect c bad) (run evs init)) = next_player_id (run evs init) + 1)"
proof -
  have ok: "ids_ok (run evs init)" by (rule run_ids_ok[OF ids_ok_init])
  then have ids: "connected_ids (out (run evs init)) = [1 .. next_player_id (run evs init) - 1]"
    by (simp add: ids_ok_def)
  have rng: "1 \<le> p \<and> p < next_player_id (run evs init) \<and> p \<in> set (connected_ids (out (run evs init)))"
    if "client_ids (run evs init) c = Some p" for c p
    using ok that unfolding ids by (auto simp: ids_ok_def)
  have inj: "c = c'"
    if "client_ids (run evs init) c = Some p \<and> client_ids (run evs init) c' = Some p" for c c' p
    using ok that unfolding ids_ok_def by blast
  from ids rng inj newly_registered show ?thesis by blast
qed

theorem player_ids_increase_from_one_witness:
  "connected_ids (out (run reconnect init)) = [1, 2] \<and>
   next_player_id (run reconnect init) = 3 \<and>
   client_ids (run reconnect init) 1 = Some 2 \<and>
   clients (run reconnect init) = [1]"
proof -
  have n: "next_player_id (run reconnect init) = 3" "client_ids (run reconnect init) 1 = Some 2"
    "clients (run reconnect init) = [1]"
    by (simp_all add: reconnect_def server_defs)
  from player_ids_increase_from_one[of reconnect]
  have "connected_ids (out (run reconnect init)) = [1 .. next_player_id (run reconnect init) - 1]"
    by blast
  with n show ?thesis by (simp add: upto_rec1)
qed

section \<open>The client does not raise\<close>

lemma send_update_cases:
  "send_update pumps net self =
     (case dumps_msg (player_id self) pumps of
        Inl e \<Rightarrow> (self\<lparr>cout := cout self @ [SendingFailed e]\<rparr>, Inr ())
      | Inr d \<Rightarrow>
          if sock_closed self then (self\<lparr>cout := cout self @ [SendingFailed OSError]\<rparr>, Inr ())
          else (case net of
                  Some e \<Rightarrow> (self\<lparr>cout := cout self @ [SendingFailed e]\<rparr>, Inr ())
                | None \<Rightarrow> (self\<lparr>written := written self @ [d]\<rparr>, Inr ())))"
  by (simp add: send_update_def sock_sendall_def split: sum.splits option.splits)

text \<open>
  Claim C8. For every argument and every answer of the network, \<open>send_update\<close> returns
  normally. With an identifier and a pump count that JSON can write and an open socket it
  writes the object \<open>{"id": ..., "pumps": ...}\<close> when the network accepts it, and when the
  write raises it writes nothing and prints the error. In every other case (a closed
  socket, an argument on which \<open>json.dumps\<close> raises) it prints an error as well. The cached
  leaderboard and the listener's flag are left alone.
\<close>

theorem send_update_never_raises:
  "snd (send_update pumps net self) = Inr () \<and>
   running (fst (send_update pumps net self)) = running self \<and>
   leaderboard (fst (send_update pumps net self)) = leaderboard self \<and>
   (\<forall>i p. player_id self = Plain i \<and> pumps = Plain p \<and> \<not> sock_closed self \<longrightarrow>
      (net = None \<longrightarrow>
         written (fst (send_update pumps net self)) =
           written self @ [JObj [(ustr ''id'', i), (ustr ''pumps'', p)]] \<and>
         cout (fst (send_update pumps net self)) = cout self) \<and>
      (\<forall>e. net = Some e \<longrightarrow>
         written (fst (send_update pumps net self)) = written self \<and>
         cout (fst (send_update pumps net self)) = cout self @ [SendingFailed e])) \<and>
   (sock_closed self \<or> (\<exists>e. pumps = Opaque e) \<or> (\<exists>e. player_id self = Opaque e) \<longrightarrow>
      written (fst (send_update pumps net self)) = written self \<and>
      (\<exists>e. cout (fst (send_update pumps net self)) = cout self @ [SendingFailed e]))"
  by (cases pumps; cases "player_id self"; cases net)
     (auto simp: send_update_cases dumps_msg_def)

theorem send_update_never_raises_witness:
  "snd (send_update (Plain (JInt 12)) (Some OSError) player_seven) = Inr () \<and>
   written (fst (send_update (Plain (JInt 12)) (Some OSError) player_seven)) = [] \<and>
   cout (fst (send_update (Plain (JInt 12)) (Some OSError) player_seven)) = [SendingFailed OSError] \<and>
   written (fst (send_update (Plain (JInt 12)) None player_seven)) =
     [JObj [(ustr ''id'', JStr (ustr ''7'')), (ustr ''pumps'', JInt 12)]] \<and>
   snd (send_update (Opaque TypeError) None player_seven) = Inr () \<and>
   cout (fst (send_update (Opaque ValueError) None player_seven)) = [SendingFailed ValueError]"
  using send_update_never_raises[of "Plain (JInt 12)" "Some OSError" player_seven]
    send_update_never_raises[of "Plain (JInt 12)" None player_seven]
    send_update_never_raises[of "Opaque TypeError" None player_seven]
    send_update_never_raises[of "Opaque ValueError" None player_seven]
  by (simp add: player_seven_def new_client_def send_update_cases dumps_msg_def)

section \<open>The listener\<close>

lemma listen_stops_on_failure:
  assumes "running self" and "net n = (RecvFailed, closing)"
  shows "\<exists>self'. listen_for_updates net n self = Some (Suc n, self') \<and> \<not> running self'"
  using assms
  by (subst listen_for_updates.simps, subst listen_for_updates.simps)
     (simp add: listen_turn_def close_def)

lemma listen_stops_after_close:
  assumes "running self" and "net n = (r, True)"
  shows "\<exists>self'. listen_for_updates net n self = Some (Suc n, self') \<and> \<not> running self'"
proof -
  have "\<not> running (listen_turn r' (close self))" for r'
    by (cases r') (auto simp: listen_turn_def close_def split: sum.splits)
  with assms show ?thesis
    by (subst listen_for_updates.simps, subst listen_for_updates.simps) simp
qed

lemma listen_stops_on_bad_payload:
  assumes "running self" and "\<not> sock_closed self" and "net n = (Bytes p, closing)"
    and "loads_decode p = Inl e"
  shows "\<exists>self'. listen_for_updates net n self = Some (Suc n, self') \<and> \<not> running self'"
  using assms
  by (subst listen_for_updates.simps, subst listen_for_updates.simps)
     (simp add: listen_turn_def close_def)

lemma listen_eof_forever:
  assumes "listen_for_updates net n self = Some y"
  shows "net = peer_closed \<and> \<not> sock_closed self \<longrightarrow> \<not> running self"
proof (rule listen_for_updates.raw_induct
    [where P = "\<lambda>net n self y. net = peer_closed \<and> \<not> sock_closed self \<longrightarrow> \<not> running self",
     OF _ assms])
  fix listen :: "(nat \<Rightarrow> recv_result \<times> bool) \<Rightarrow> nat \<Rightarrow> client \<Rightarrow> (nat \<times> client) option"
    and net n self y
  assume IH: "\<And>net' n' self' y'. listen net' n' self' = Some y' \<Longrightarrow>
                net' = peer_closed \<and> \<not> sock_closed self' \<longrightarrow> \<not> running self'"
    and body: "(if running self
      then case net n of
           (r, closing) \<Rightarrow>
             listen net (Suc n)
              (listen_turn (if sock_closed self then RecvFailed else r)
                (if closing then close self else self))
      else Some (n, self)) = Some y"
  show "net = peer_closed \<and> \<not> sock_closed self \<longrightarrow> \<not> running self"
  proof (intro impI notI)
    assume a: "net = peer_closed \<and> \<not> sock_closed self" and r: "running self"
    with body have "listen net (Suc n) self = Some y"
      by (simp add: peer_closed_def listen_turn_def)
    from IH[OF this] a r show False by simp
  qed
qed

text \<open>
  Claim C9. The server closes the connection of a freshly connected client, so that each
  \<open>recv\<close> of the listener returns \<open>b''\<close>: the listener never leaves its loop. It stops after
  a read that raises, after bytes it cannot decode and after a \<open>close()\<close> of its own client,
  as the three lemmas before show, but not here.
\<close>

theorem listener_spins_after_peer_close:
  "listen_for_updates peer_closed 0 player_seven = None"
proof (cases "listen_for_updates peer_closed 0 player_seven")
  case None
  then show ?thesis .
next
  case (Some y)
  from listen_eof_forever[OF Some] show ?thesis
    by (simp add: player_seven_def new_client_def)
qed

section \<open>The code's ranking and the specification's\<close>

lemma pump_count_key: "pump_count v = Some n \<Longrightarrow> pumps_key v = Inr n"
  by (cases v) (auto simp: pumps_key_def split: option.splits json.splits)

lemma score_update_key: "score_update v \<Longrightarrow> has_pumps v \<and> key_of v = count_of v"
  by (auto simp: score_update_def has_pumps_def key_of_def count_of_def
           split: option.splits dest: pump_count_key)

lemma insort_key_agree:
  "f x = g x \<Longrightarrow> \<forall>y \<in> set ys. f y = g y \<Longrightarrow> insort_key f x ys = insort_key g x ys"
  by (induction ys) auto

lemma sort_key_agree: "\<forall>x \<in> set xs. f x = g x \<Longrightarrow> sort_key f xs = sort_key g xs"
proof (induction xs)
  case Nil
  then show ?case by simp
next
  case (Cons x xs)
  then have eq: "sort_key f xs = sort_key g xs" by simp
  have "f x = g x" and "\<forall>y \<in> set (sort_key g xs). f y = g y" using Cons.prems by simp_all
  then have "insort_key f x (sort_key g xs) = insort_key g x (sort_key g xs)"
    by (rule insort_key_agree)
  with eq show ?case by simp
qed

lemma sorted_by_pumps_spec:
  assumes "list_all score_update xs"
  shows "sorted_by_pumps xs = Inr (sort_key (\<lambda>x. - count_of x) xs)"
proof -
  from assms have h: "list_all has_pumps xs" and k: "\<forall>x \<in> set xs. - key_of x = - count_of x"
    by (auto simp: list_all_iff dest: score_update_key)
  from sort_key_agree[OF k] sorted_by_pumps_ok[OF h] show ?thesis by simp
qed

lemma record_update_refines:
  assumes "list_all score_update lb" and "score_update v"
  shows "record_update v lb = (recordUpdate v lb, Inr ())"
proof -
  from assms have "list_all score_update (lb @ [v])" by simp
  from sorted_by_pumps_spec[OF this] show ?thesis
    by (simp add: record_update_def recordUpdate_def)
qed

lemma descending_recordUpdate:
  assumes "list_all score_update lb" and "score_update v"
  shows "descending (recordUpdate v lb)" and "length (recordUpdate v lb) \<le> MAX_LEADERBOARD"
proof -
  let ?f = "\<lambda>x. - count_of x"
  let ?srt = "sort_key ?f (lb @ [v])"
  have "sorted (map ?f ?srt)" by (rule sorted_sort_key)
  then have "sorted_wrt (\<lambda>a b. count_of b \<le> count_of a) ?srt"
    by (simp add: sorted_wrt_map)
  then have "sorted_wrt (\<lambda>a b. count_of b \<le> count_of a) (take MAX_LEADERBOARD ?srt)"
    by (rule sorted_wrt_take)
  moreover have "list_all score_update (take MAX_LEADERBOARD ?srt)"
    using assms by (auto simp: list_all_iff dest!: in_set_takeD)
  ultimately show "descending (recordUpdate v lb)"
    by (simp add: descending_def recordUpdate_def)
  show "length (recordUpdate v lb) \<le> MAX_LEADERBOARD" by (simp add: recordUpdate_def)
qed

lemma recordUpdate_drops_lowest:
  "\<exists>dropped. mset (recordUpdate v lb) + mset dropped = mset lb + {#v#} \<and>
     (\<forall>d \<in> set dropped. \<forall>k \<in> set (recordUpdate v lb). count_of d \<le> count_of k)"
proof -
  let ?f = "\<lambda>x. - count_of x"
  let ?srt = "sort_key ?f (lb @ [v])"
  let ?n = MAX_LEADERBOARD
  have "sorted (map ?f ?srt)" by (rule sorted_sort_key)
  then have "sorted_wrt (\<lambda>a b. count_of b \<le> count_of a) (take ?n ?srt @ drop ?n ?srt)"
    by (simp add: sorted_wrt_map)
  then have low: "\<forall>k \<in> set (take ?n ?srt). \<forall>d \<in> set (drop ?n ?srt). count_of d \<le> count_of k"
    unfolding sorted_wrt_append by blast
  have "mset (take ?n ?srt) + mset (drop ?n ?srt) = mset ?srt"
    by (simp flip: mset_append)
  then have "mset (take ?n ?srt) + mset (drop ?n ?srt) = mset lb + {#v#}" by simp
  then have m: "mset (recordUpdate v lb) + mset (drop ?n ?srt) = mset lb + {#v#}"
    by (simp add: recordUpdate_def)
  from low have "\<forall>d \<in> set (drop ?n ?srt). \<forall>k \<in> set (recordUpdate v lb). count_of d \<le> count_of k"
    unfolding recordUpdate_def by blast
  with m show ?thesis by (intro exI[of _ "drop ?n ?srt"] conjI)
qed

lemma recordUpdate_length:
  "length (recordUpdate v lb) = min MAX_LEADERBOARD (Suc (length lb))"
  by (simp add: recordUpdate_def min_def)

lemma recordUpdate_room:
  "length lb < MAX_LEADERBOARD \<Longrightarrow> mset (recordUpdate v lb) = mset lb + {#v#}"
  by (simp add: recordUpdate_def)

lemma recv_score_update:
  assumes "threads s c = Some pid" and "\<not> halted s"
    and "list_all score_update (leaderbord s)" and "score_update v"
  shows "leaderbord (step (Receive c (Bytes (Json v)) bad) s) = recordUpdate v (leaderbord s)"
  using assms record_update_refines[OF assms(3,4)] by (simp add: recv_leaderbord)

lemma broadcast_snapshots:
  "m \<in> set (fst (broadcast bad (Snapshot lb) cs)) \<Longrightarrow> snd m = Snapshot lb"
  by (auto simp: broadcast_fst)

lemma step_ranked:
  assumes "ranked s" and "score_update_event ev"
  shows "ranked (step ev s)"
proof (cases ev)
  case (Connect c bad)
  have "sent (accept_conn c bad s) = sent s \<or> sent (accept_conn c bad s) = sent s @ [(c, ServerFull)]"
    by (cases c bad s rule: accept_conn_cases)
       (simp_all add: loop_head_fields start_fields)
  with assms(1) Connect show ?thesis by (auto simp: ranked_def accept_leaderbord)
next
  case (Receive c r bad)
  show ?thesis
  proof (cases "halted s \<or> threads s c = None")
    case True
    with assms(1) Receive show ?thesis by (auto simp: recv_leaderbord_dead)
  next
    case False
    then obtain pid where live: "\<not> halted s" "threads s c = Some pid" by auto
    show ?thesis
    proof (cases "\<exists>v. r = Bytes (Json v)")
      case True
      then obtain v where r: "r = Bytes (Json v)" by blast
      with assms(2) Receive have v: "score_update v" by simp
      from assms(1) have all: "list_all score_update (leaderbord s)"
        by (simp add: ranked_def descending_def)
      let ?lb = "recordUpdate v (leaderbord s)"
      have ru: "record_update v (leaderbord s) = (?lb, Inr ())"
        by (rule record_update_refines[OF all v])
      have d: "descending ?lb" "length ?lb \<le> MAX_LEADERBOARD"
        by (rule descending_recordUpdate[OF all v])+
      have lb: "leaderbord (step ev s) = ?lb"
        using Receive r live ru by (simp add: recv_leaderbord)
      have snt: "sent (step ev s) = sent s @ fst (broadcast bad (Snapshot ?lb) (clients s))"
        using Receive r live ru by (simp add: recv_sent)
      have "ranked_snapshot m" if "m \<in> set (fst (broadcast bad (Snapshot ?lb) (clients s)))" for m
        using broadcast_snapshots[OF that] d by (cases m) simp
      then have "list_all ranked_snapshot (fst (broadcast bad (Snapshot ?lb) (clients s)))"
        by (simp add: list_all_iff)
      with assms(1) d lb snt show ?thesis by (simp add: ranked_def)
    next
      case False
      then have other: "\<forall>v. r \<noteq> Bytes (Json v)" by blast
      have "sent (handle_client_recv c r bad s) = sent s"
        using other by (auto simp: recv_sent split: option.splits recv_result.splits payload.splits)
      with recv_leaderbord_other[OF other] assms(1) Receive show ?thesis
        by (simp add: ranked_def)
    qed
  qed
qed

lemma run_ranked:
  "ranked s \<Longrightarrow> \<forall>ev \<in> set evs. score_update_event ev \<Longrightarrow> ranked (run evs s)"
  by (induction evs arbitrary: s) (simp_all add: run_Nil run_Cons step_ranked)

lemma ranked_init: "ranked init"
  by (simp add: ranked_def init_def descending_def)

section \<open>The ranking is sorted and bounded\<close>

text \<open>
  Claim C1. Whatever events the server handles, as long as every JSON value it receives is
  a score update: after every event the ranking is sorted descending by pump count and has
  at most \<open>MAX_LEADERBOARD\<close> entries, and so has every snapshot the server has sent. A
  further score update makes the ranking what the specification's \<open>recordUpdate\<close> makes
  of it: the entries that are dropped, together with the ones that are kept, are the old
  entries and the new one, and no dropped entry has a higher pump count than a kept one.
\<close>

theorem ranking_sorted_and_bounded:
  assumes "\<forall>ev \<in> set evs. score_update_event ev"
  shows "descending (leaderbord (run evs init)) \<and>
         length (leaderbord (run evs init)) \<le> MAX_LEADERBOARD \<and>
         (\<forall>m \<in> set (sent (run evs init)). ranked_snapshot m) \<and>
         (\<forall>c pid v bad.
            threads (run evs init) c = Some pid \<and> \<not> halted (run evs init) \<and> score_update v \<longrightarrow>
            leaderbord (step (Receive c (Bytes (Json v)) bad) (run evs init)) =
              recordUpdate v (leaderbord (run evs init)) \<and>
            (\<exists>dropped.
               mset (leaderbord (step (Receive c (Bytes (Json v)) bad) (run evs init))) + mset dropped =
                 mset (leaderbord (run evs init)) + {#v#} \<and>
               (\<forall>d \<in> set dropped.
                  \<forall>k \<in> set (leaderbord (step (Receive c (Bytes (Json v)) bad) (run evs init))).
                    count_of d \<le> count_of k)))"
proof -
  let ?s = "run evs init"
  have r: "ranked ?s" using run_ranked[OF ranked_init assms] .
  then have all: "list_all score_update (leaderbord ?s)" by (simp add: ranked_def descending_def)
  have upd: "leaderbord (step (Receive c (Bytes (Json v)) bad) ?s) = recordUpdate v (leaderbord ?s) \<and>
            (\<exists>dropped.
               mset (leaderbord (step (Receive c (Bytes (Json v)) bad) ?s)) + mset dropped =
                 mset (leaderbord ?s) + {#v#} \<and>
               (\<forall>d \<in> set dropped. \<forall>k \<in> set (leaderbord (step (Receive c (Bytes (Json v)) bad) ?s)).
                    count_of d \<le> count_of k))"
    if "threads ?s c = Some pid \<and> \<not> halted ?s \<and> score_update v" for c pid v bad
  proof -
    from that have "leaderbord (step (Receive c (Bytes (Json v)) bad) ?s) = recordUpdate v (leaderbord ?s)"
      using recv_score_update[OF _ _ all] by blast
    with recordUpdate_drops_lowest[of v "leaderbord ?s"] show ?thesis by simp
  qed
  from r have "descending (leaderbord ?s)" "length (leaderbord ?s) \<le> MAX_LEADERBOARD"
    "\<forall>m \<in> set (sent ?s). ranked_snapshot m"
    by (simp_all add: ranked_def list_all_iff)
  with upd show ?thesis by blast
qed

lemma eight_updates_state:
  "leaderbord (run eight_updates init) =
     [entry ''2'' 90, entry ''2'' 60, entry ''1'' 50, entry ''1'' 40,
      entry ''1'' 30, entry ''1'' 20, entry ''2'' 15, entry ''2'' 10]"
  "threads (run eight_updates init) 1 = Some 1" "threads (run eight_updates init) 2 = Some 2"
  "\<not> halted (run eight_updates init)"
  by (simp_all add: eight_updates_def server_defs ustr_def)

lemma entry_score_update: "score_update (entry i n)" "count_of (entry i n) = n"
  by (simp_all add: score_update_def count_of_def entry_def)

theorem ranking_sorted_and_bounded_witness:
  "list_all score_update_event eight_updates \<and>
   threads (run eight_updates init) 2 = Some 2 \<and> \<not> halted (run eight_updates init) \<and>
   score_update (entry ''2'' 50) \<and>
   leaderbord (run eight_updates init) =
     [entry ''2'' 90, entry ''2'' 60, entry ''1'' 50, entry ''1'' 40,
      entry ''1'' 30, entry ''1'' 20, entry ''2'' 15, entry ''2'' 10] \<and>
   descending (leaderbord (run eight_updates init)) \<and>
   length (leaderbord (run eight_updates init)) \<le> MAX_LEADERBOARD \<and>
   leaderbord (step (Receive 2 (Bytes (Json (entry ''2'' 50))) []) (run eight_updates init)) =
     [entry ''2'' 90, entry ''2'' 60, entry ''1'' 50, entry ''2'' 50,
      entry ''1'' 40, entry ''1'' 30, entry ''1'' 20, entry ''2'' 15]"
proof -
  have h: "\<forall>ev \<in> set eight_updates. score_update_event ev"
    by (simp add: eight_updates_def entry_score_update)
  note th = ranking_sorted_and_bounded[OF h]
  from th have d: "descending (leaderbord (run eight_updates init))"
    and l: "length (leaderbord (run eight_updates init)) \<le> MAX_LEADERBOARD" by blast+
  from th eight_updates_state(3,4) entry_score_update(1)[of "''2''" 50]
  have "leaderbord (step (Receive 2 (Bytes (Json (entry ''2'' 50))) []) (run eight_updates init)) =
        recordUpdate (entry ''2'' 50) (leaderbord (run eight_updates init))"
    by blast
  also have "\<dots> = [entry ''2'' 90, entry ''2'' 60, entry ''1'' 50, entry ''2'' 50,
      entry ''1'' 40, entry ''1'' 30, entry ''1'' 20, entry ''2'' 15]"
    by (simp add: eight_updates_state(1) recordUpdate_def entry_score_update MAX_LEADERBOARD_def)
  finally show ?thesis
    using h d l eight_updates_state entry_score_update(1)[of "''2''" 50]
    by (simp add: list_all_iff)
qed

section \<open>Entries are only added or dropped\<close>

text \<open>
  Claim C7, as stated, fails: the only client of a server sends a JSON object without
  \<open>"pumps"\<close>, which is no score update, and the ranking is changed all the same: the object
  is appended to it.
\<close>

theorem stored_without_score_update:
  "\<not> score_update no_pumps \<and>
   threads one_client 1 = Some 1 \<and> leaderbord one_client = [] \<and>
   leaderbord (step (Receive 1 (Bytes (Json no_pumps)) []) one_client) = [no_pumps]"
  by (simp add: one_client_def server_defs score_update_def no_pumps_def)

text \<open>
  Claim C7, as the code has it. The ranking changes only when a handler receives a JSON
  value: an arriving connection, a closed or failed read and bytes that give no JSON
  value leave it as it is. When the ranking holds score updates and a handler receives
  the score update \<open>v\<close>, the ranking becomes what the specification's \<open>recordUpdate\<close> makes
  of it, whatever players the entries belong to: \<open>v\<close> is added as a new entry and no entry
  is changed; below the capacity the entries are exactly the old ones and \<open>v\<close>; at the
  capacity the entries kept and the ones dropped are the old ones and \<open>v\<close>, and no dropped
  entry has a higher pump count than a kept one.
\<close>

theorem updates_append_entries:
  "leaderbord (step (Connect c bad) s) = leaderbord s \<and>
   ((\<forall>u. r \<noteq> Bytes (Json u)) \<longrightarrow> leaderbord (step (Receive c r bad) s) = leaderbord s) \<and>
   (threads s c = Some pid \<and> \<not> halted s \<and> list_all score_update (leaderbord s) \<and>
    score_update v \<longrightarrow>
      leaderbord (step (Receive c (Bytes (Json v)) bad) s) = recordUpdate v (leaderbord s) \<and>
      length (leaderbord (step (Receive c (Bytes (Json v)) bad) s)) =
        min MAX_LEADERBOARD (Suc (length (leaderbord s))) \<and>
      (length (leaderbord s) < MAX_LEADERBOARD \<longrightarrow>
         mset (leaderbord (step (Receive c (Bytes (Json v)) bad) s)) = mset (leaderbord s) + {#v#}) \<and>
      (\<exists>dropped.
         mset (leaderbord (step (Receive c (Bytes (Json v)) bad) s)) + mset dropped =
           mset (leaderbord s) + {#v#} \<and>
         (\<forall>d \<in> set dropped. \<forall>k \<in> set (leaderbord (step (Receive c (Bytes (Json v)) bad) s)).
            count_of d \<le> count_of k)))"
proof (intro conjI impI)
  show "leaderbord (step (Connect c bad) s) = leaderbord s"
    by (simp add: accept_leaderbord)
next
  assume "\<forall>u. r \<noteq> Bytes (Json u)"
  from recv_leaderbord_other[OF this] show "leaderbord (step (Receive c r bad) s) = leaderbord s"
    by simp
next
  assume a: "threads s c = Some pid \<and> \<not> halted s \<and> list_all score_update (leaderbord s) \<and>
    score_update v"
  then have eq: "leaderbord (step (Receive c (Bytes (Json v)) bad) s) = recordUpdate v (leaderbord s)"
    using recv_score_update by blast
  show "leaderbord (step (Receive c (Bytes (Json v)) bad) s) = recordUpdate v (leaderbord s)"
    by (rule eq)
  show "length (leaderbord (step (Receive c (Bytes (Json v)) bad) s)) =
        min MAX_LEADERBOARD (Suc (length (leaderbord s)))"
    unfolding eq by (rule recordUpdate_length)
  show "\<exists>dropped.
         mset (leaderbord (step (Receive c (Bytes (Json v)) bad) s)) + mset dropped =
           mset (leaderbord s) + {#v#} \<and>
         (\<forall>d \<in> set dropped. \<forall>k \<in> set (leaderbord (step (Receive c (Bytes (Json v)) bad) s)).
            count_of d \<le> count_of k)"
    unfolding eq by (rule recordUpdate_drops_lowest)
  assume "length (leaderbord s) < MAX_LEADERBOARD"
  then show "mset (leaderbord (step (Receive c (Bytes (Json v)) bad) s)) = mset (leaderbord s) + {#v#}"
    unfolding eq by (rule recordUpdate_room)
qed

theorem updates_append_entries_witness:
  "threads (run eight_updates init) 1 = Some 1 \<and> \<not> halted (run eight_updates init) \<and>
   list_all score_update (leaderbord (run eight_updates init)) \<and> score_update (entry ''1'' 70) \<and>
   leaderbord (run eight_updates init) =
     [entry ''2'' 90, entry ''2'' 60, entry ''1'' 50, entry ''1'' 40,
      entry ''1'' 30, entry ''1'' 20, entry ''2'' 15, entry ''2'' 10] \<and>
   leaderbord (step (Receive 1 (Bytes (Json (entry ''1'' 70))) []) (run eight_updates init)) =
     [entry ''2'' 90, entry ''1'' 70, entry ''2'' 60, entry ''1'' 50,
      entry ''1'' 40, entry ''1'' 30, entry ''1'' 20, entry ''2'' 15] \<and>
   leaderbord (step (Receive 1 Eof []) (run eight_updates init)) = leaderbord (run eight_updates init)"
proof -
  have all: "list_all score_update (leaderbord (run eight_updates init))"
    by (simp add: eight_updates_state(1) entry_score_update)
  note th = updates_append_entries[of 1 "[]" "run eight_updates init" Eof 1 "entry ''1'' 70"]
  from th have e: "leaderbord (step (Receive 1 Eof []) (run eight_updates init)) =
      leaderbord (run eight_updates init)" by blast
  from th all eight_updates_state(2,4) entry_score_update(1)[of "''1''" 70]
  have "leaderbord (step (Receive 1 (Bytes (Json (entry ''1'' 70))) []) (run eight_updates init)) =
        recordUpdate (entry ''1'' 70) (leaderbord (run eight_updates init))"
    by blast
  also have "\<dots> = [entry ''2'' 90, entry ''1'' 70, entry ''2'' 60, entry ''1'' 50,
      entry ''1'' 40, entry ''1'' 30, entry ''1'' 20, entry ''2'' 15]"
    by (simp add: eight_updates_state(1) recordUpdate_def entry_score_update MAX_LEADERBOARD_def)
  finally show ?thesis
    using all e eight_updates_state entry_score_update(1)[of "''1''" 70] by simp
qed

section \<open>A connection to a full server\<close>

lemma full_server_crashes:
  assumes ok: "registry_ok s" and full: "length (clients s) = MAX_PLAYERS" and "\<not> halted s"
    and new: "c \<notin> set (clients s)" and "c \<in> set bad"
  shows "step (Connect c bad) s = s\<lparr>halted := True\<rparr>"
proof -
  from ok full have r: "refusing s" by (simp add: registry_ok_def)
  from ok new have "threads s c = None" "client_ids s c = None"
    by (auto simp: registry_ok_def)
  with assms r show ?thesis by (simp add: accept_conn_def)
qed

text \<open>
  Claim C5, as stated, fails: five clients are registered, a sixth connection arrives and
  the send of the rejection to it raises. Nothing is sent, the connection is not closed,
  and the server has ended.
\<close>

theorem rejection_send_failure:
  "length (clients (run five_clients init)) = MAX_PLAYERS \<and>
   6 \<notin> set (clients (run five_clients init)) \<and> \<not> halted (run five_clients init) \<and>
   halted (step (Connect 6 [6]) (run five_clients init)) \<and>
   sent (step (Connect 6 [6]) (run five_clients init)) = [] \<and>
   closed (step (Connect 6 [6]) (run five_clients init)) = []"
  by (simp add: five_clients_def server_defs)

text \<open>
  Claim C5, as the code has it. A server that has \<open>MAX_PLAYERS\<close> registered clients is sent
  one more connection. When the send of the fixed rejection message does not raise, the
  server sends it and closes the connection; nothing else changes but the printed
  warning, so the connection is not registered and gets no identifier. When the send
  raises, the exception is not caught: nothing is sent, the connection is not closed and
  the server ends. In both cases, whatever happens afterwards without that socket being
  accepted anew, it is never registered, has no handler and is sent nothing but the
  rejection. And of \<open>MAX_PLAYERS + 1\<close> different connections arriving at a fresh server with
  no failing send, all but the last are registered and the last one alone is rejected.
\<close>

theorem full_server_rejects_connection:
  assumes "length (clients (run evs init)) = MAX_PLAYERS" and "\<not> halted (run evs init)"
    and "c \<notin> set (clients (run evs init))" and "\<forall>ev \<in> set evs'. no_connect c ev"
  shows "(c \<notin> set bad \<longrightarrow>
            step (Connect c bad) (run evs init) =
              (run evs init)\<lparr>sent := sent (run evs init) @ [(c, ServerFull)],
                              closed := closed (run evs init) @ [c],
                              out := out (run evs init) @ [MaxPlayersWarning]\<rparr>) \<and>
         (c \<in> set bad \<longrightarrow>
            step (Connect c bad) (run evs init) = (run evs init)\<lparr>halted := True\<rparr>) \<and>
         c \<notin> set (clients (run (evs @ Connect c bad # evs') init)) \<and>
         threads (run (evs @ Connect c bad # evs') init) c = None \<and>
         sent_to c (run (evs @ Connect c bad # evs') init) =
           sent_to c (run evs init) @ (if c \<in> set bad then [] else [ServerFull]) \<and>
         (\<forall>cs. distinct cs \<and> length cs = MAX_PLAYERS + 1 \<longrightarrow>
            clients (run (map (\<lambda>c. Connect c []) cs) init) = butlast cs \<and>
            sent (run (map (\<lambda>c. Connect c []) cs) init) = [(last cs, ServerFull)] \<and>
            closed (run (map (\<lambda>c. Connect c []) cs) init) = [last cs])"
proof -
  let ?s = "run evs init"
  let ?s' = "step (Connect c bad) ?s"
  have ok: "registry_ok ?s" by (rule run_registry_ok[OF registry_ok_init])
  have rej: "?s' = ?s\<lparr>sent := sent ?s @ [(c, ServerFull)], closed := closed ?s @ [c],
                     out := out ?s @ [MaxPlayersWarning]\<rparr>" if "c \<notin> set bad"
    by (rule full_server_rejects[OF ok assms(1-3) that])
  have crash: "?s' = ?s\<lparr>halted := True\<rparr>" if "c \<in> set bad"
    by (rule full_server_crashes[OF ok assms(1-3) that])
  from ok assms(3) have none: "threads ?s c = None" by (auto simp: registry_ok_def)
  have both: "c \<notin> set (clients ?s') \<and> threads ?s' c = None \<and>
      sent_to c ?s' = sent_to c ?s @ (if c \<in> set bad then [] else [ServerFull])"
  proof (cases "c \<in> set bad")
    case True
    show ?thesis unfolding crash[OF True] using True assms(3) none by (simp add: sent_to_def)
  next
    case False
    show ?thesis unfolding rej[OF False] using False assms(3) none by (simp add: sent_to_def)
  qed
  then have out: "c \<notin> set (clients ?s')" "threads ?s' c = None"
    and to: "sent_to c ?s' = sent_to c ?s @ (if c \<in> set bad then [] else [ServerFull])"
    by simp_all
  from run_stays_out[OF out assms(4)] to
  have later: "c \<notin> set (clients (run (evs @ Connect c bad # evs') init)) \<and>
         threads (run (evs @ Connect c bad # evs') init) c = None \<and>
         sent_to c (run (evs @ Connect c bad # evs') init) =
           sent_to c ?s @ (if c \<in> set bad then [] else [ServerFull])"
    by (simp add: run_append run_Cons)
  have six: "clients (run (map (\<lambda>c. Connect c []) cs) init) = butlast cs \<and>
            sent (run (map (\<lambda>c. Connect c []) cs) init) = [(last cs, ServerFull)] \<and>
            closed (run (map (\<lambda>c. Connect c []) cs) init) = [last cs]"
    if d: "distinct cs" and l: "length cs = MAX_PLAYERS + 1" for cs
  proof -
    from l have ne: "cs \<noteq> []" by auto
    then have cs: "cs = butlast cs @ [last cs]" by simp
    let ?t = "run (map (\<lambda>c. Connect c []) (butlast cs)) init"
    from d l have "distinct (butlast cs)" "length (butlast cs) \<le> MAX_PLAYERS"
      by (simp_all add: distinct_butlast)
    from connects_admitted[OF this] l
    have t: "clients ?t = butlast cs" "sent ?t = []" "closed ?t = []" "\<not> halted ?t"
      by simp_all
    have okt: "registry_ok ?t" by (rule run_registry_ok[OF registry_ok_init])
    from d cs have new: "last cs \<notin> set (clients ?t)"
      unfolding t(1) by (metis distinct_append disjoint_iff list.set_intros(1))
    from t(1) l have full: "length (clients ?t) = MAX_PLAYERS" by simp
    have "run (map (\<lambda>c. Connect c []) cs) init = step (Connect (last cs) []) ?t"
      by (subst cs) (simp add: run_append run_Cons run_Nil)
    with full_server_rejects[OF okt full t(4) new, of "[]"] t show ?thesis by simp
  qed
  from rej crash later six show ?thesis by blast
qed

theorem full_server_rejects_connection_witness:
  "length (clients (run five_clients init)) = MAX_PLAYERS \<and> \<not> halted (run five_clients init) \<and>
   6 \<notin> set (clients (run five_clients init)) \<and>
   list_all (no_connect 6) [Receive 1 (Bytes (Json (entry ''1'' 5))) []] \<and>
   sent_to 6 (run (five_clients @ Connect 6 [] # [Receive 1 (Bytes (Json (entry ''1'' 5))) []]) init) =
     [ServerFull] \<and>
   closed (step (Connect 6 []) (run five_clients init)) = [6] \<and>
   6 \<notin> set (clients (run (five_clients @ Connect 6 [] # [Receive 1 (Bytes (Json (entry ''1'' 5))) []]) init)) \<and>
   sent_to 6 (run (five_clients @ Connect 6 [6] # [Receive 1 (Bytes (Json (entry ''1'' 5))) []]) init) = [] \<and>
   halted (step (Connect 6 [6]) (run five_clients init)) \<and>
   clients (run (map (\<lambda>c. Connect c []) [1, 2, 3, 4, 5, 6]) init) = [1, 2, 3, 4, 5] \<and>
   sent (run (map (\<lambda>c. Connect c []) [1, 2, 3, 4, 5, 6]) init) = [(6, ServerFull)]"
proof -
  have a: "length (clients (run five_clients init)) = MAX_PLAYERS"
    and b: "6 \<notin> set (clients (run five_clients init))"
    by (simp_all add: five_clients_state MAX_PLAYERS_def)
  have d: "\<forall>ev \<in> set [Receive 1 (Bytes (Json (entry ''1'' 5))) []]. no_connect 6 ev" by simp
  have e: "distinct [1, 2, 3, 4, 5, 6::nat] \<and> length [1, 2, 3, 4, 5, 6::nat] = MAX_PLAYERS + 1"
    by (simp add: MAX_PLAYERS_def)
  note th = full_server_rejects_connection[OF a five_clients_state(2) b d, of "[]"]
  note th' = full_server_rejects_connection[OF a five_clients_state(2) b d, of "[6]"]
  from th e
  have six: "clients (run (map (\<lambda>c. Connect c []) [1, 2, 3, 4, 5, 6]) init) = butlast [1, 2, 3, 4, 5, 6] \<and>
     sent (run (map (\<lambda>c. Connect c []) [1, 2, 3, 4, 5, 6]) init) = [(last [1, 2, 3, 4, 5, 6], ServerFull)]"
    by blast
  from th have ok: "sent_to 6 (run (five_clients @ Connect 6 [] # [Receive 1 (Bytes (Json (entry ''1'' 5))) []]) init) =
      sent_to 6 (run five_clients init) @ (if 6 \<in> set [] then [] else [ServerFull])"
    "6 \<notin> set (clients (run (five_clients @ Connect 6 [] # [Receive 1 (Bytes (Json (entry ''1'' 5))) []]) init))"
    "step (Connect 6 []) (run five_clients init) =
       (run five_clients init)\<lparr>sent := sent (run five_clients init) @ [(6, ServerFull)],
                              closed := closed (run five_clients init) @ [6],
                              out := out (run five_clients init) @ [MaxPlayersWarning]\<rparr>"
    by simp_all
  from th' have ko: "sent_to 6 (run (five_clients @ Connect 6 [6] # [Receive 1 (Bytes (Json (entry ''1'' 5))) []]) init) =
      sent_to 6 (run five_clients init) @ (if 6 \<in> set [6::nat] then [] else [ServerFull])"
    "step (Connect 6 [6]) (run five_clients init) = (run five_clients init)\<lparr>halted := True\<rparr>"
    by simp_all
  have cl: "closed (run five_clients init) = []" by (simp add: five_clients_def server_defs)
  from six a b ok(1,2) ko(1) five_clients_state show ?thesis
    unfolding ok(3) ko(2) by (simp add: sent_to_def cl)
qed

end
